theory Spec2Isabelle
  imports Complex_Main "HOL-Library.Sublist" "HOL-Library.AList" "HOL-Library.Multiset"
begin

section \<open>The name normalizer of \<^verbatim>\<open>scripts/generate-baseline.py\<close>\<close>

text \<open>
  A Python \<^verbatim>\<open>str\<close> is modelled as a \<^typ>\<open>string\<close>. The normalizer only compares
  characters with the ASCII characters named in its pattern, with \<^verbatim>\<open>.\<close>, \<^verbatim>\<open>/\<close> and with
  the line feed, so any other character behaves like any other \<^typ>\<open>char\<close>.
\<close>

subsection \<open>\<^verbatim>\<open>os.path.splitext\<close> (POSIX)\<close>

text \<open>
  \<^verbatim>\<open>str.rfind\<close> for a single character: the highest index holding \<open>c\<close>, or \<open>-1\<close>.
  \<open>rfind_from c s i r\<close> walks \<open>s\<close>, whose head has index \<open>i\<close>, and keeps in \<open>r\<close> the
  last index seen so far.
\<close>

fun rfind_from :: "char \<Rightarrow> string \<Rightarrow> int \<Rightarrow> int \<Rightarrow> int" where
  "rfind_from c [] i r = r"
| "rfind_from c (x # xs) i r = rfind_from c xs (i + 1) (if x = c then i else r)"

definition rfind :: "char \<Rightarrow> string \<Rightarrow> int" where
  "rfind c s = rfind_from c s 0 (- 1)"

text \<open>
  The library routine \<^verbatim>\<open>genericpath._splitext(p, sep, altsep, extsep)\<close> that
  \<^verbatim>\<open>posixpath.splitext\<close> calls with \<^verbatim>\<open>sep = '/'\<close>, \<^verbatim>\<open>altsep = None\<close>, \<^verbatim>\<open>extsep = '.'\<close>:
  the extension starts at the last dot, provided that dot comes after the last separator
  and some character between the separator and that dot is not a dot. The \<^verbatim>\<open>while\<close> loop
  over \<^verbatim>\<open>filenameIndex\<close> returns at the first non-dot character it meets; it is the
  existential \<open>list_ex\<close> over the indices \<open>sepIndex + 1 ..< dotIndex\<close>.
\<close>

definition splitext :: "string \<Rightarrow> string \<times> string" where
  "splitext p =
     (let sepIndex = rfind (CHR ''/'') p;
          dotIndex = rfind (CHR ''.'') p
      in if dotIndex > sepIndex \<and>
            list_ex (\<lambda>filenameIndex. p ! filenameIndex \<noteq> CHR ''.'')
                    [nat (sepIndex + 1) ..< nat dotIndex]
         then (take (nat dotIndex) p, drop (nat dotIndex) p)
         else (p, []))"

subsection \<open>The pattern \<^verbatim>\<open>^(.*?)(?:-[A-Z0-9])?-[A-Za-z0-9_-]{6,}$\<close>\<close>

definition in_range :: "char \<Rightarrow> char \<Rightarrow> char \<Rightarrow> bool" where
  "in_range lo hi c \<longleftrightarrow> (of_char lo :: nat) \<le> of_char c \<and> (of_char c :: nat) \<le> of_char hi"

text \<open>The class \<^verbatim>\<open>[A-Z0-9]\<close>.\<close>

definition is_marker :: "char \<Rightarrow> bool" where
  "is_marker c \<longleftrightarrow> in_range (CHR ''A'') (CHR ''Z'') c \<or> in_range (CHR ''0'') (CHR ''9'') c"

text \<open>The class \<^verbatim>\<open>[A-Za-z0-9_-]\<close>.\<close>

definition is_hash_char :: "char \<Rightarrow> bool" where
  "is_hash_char c \<longleftrightarrow>
     in_range (CHR ''A'') (CHR ''Z'') c \<or> in_range (CHR ''a'') (CHR ''z'') c \<or>
     in_range (CHR ''0'') (CHR ''9'') c \<or> c = CHR ''_'' \<or> c = CHR ''-''"

text \<open>
  \<^verbatim>\<open>$\<close> without \<^verbatim>\<open>re.MULTILINE\<close> matches at the end of the string and also just before
  a line feed that is the last character of the string.
\<close>

definition at_end :: "string \<Rightarrow> bool" where
  "at_end s \<longleftrightarrow> s = [] \<or> s = [CHR 0x0A]"

text \<open>
  \<^verbatim>\<open>-[A-Za-z0-9_-]{6,}$\<close> at the start of \<open>s\<close>: a dash, then the greedy run of class
  characters, which must have at least six characters and must be followed by \<^verbatim>\<open>$\<close>.
  Giving back characters of the run cannot help: \<^verbatim>\<open>$\<close> would then stand before a class
  character.
\<close>

definition hash_tail :: "string \<Rightarrow> bool" where
  "hash_tail s =
     (case s of
        [] \<Rightarrow> False
      | c # t \<Rightarrow> c = CHR ''-'' \<and> 6 \<le> length (takeWhile is_hash_char t) \<and>
                 at_end (dropWhile is_hash_char t))"

text \<open>
  \<^verbatim>\<open>(?:-[A-Z0-9])?-[A-Za-z0-9_-]{6,}$\<close> at the start of \<open>s\<close>: the optional group is greedy,
  so the matcher first tries with it and then without it.
\<close>

definition suffix_ok :: "string \<Rightarrow> bool" where
  "suffix_ok s =
     ((case s of
         a # b # r \<Rightarrow> a = CHR ''-'' \<and> is_marker b \<and> hash_tail r
       | _ \<Rightarrow> False)
      \<or> hash_tail s)"

text \<open>
  The lazy group \<^verbatim>\<open>(.*?)\<close>: \<open>lazy_group pre s\<close> has consumed \<open>pre\<close> and looks at \<open>s\<close>.
  It first tries to match the rest of the pattern here, and only when that fails lets the
  group take one more character, which \<^verbatim>\<open>.\<close> refuses when it is a line feed. The result
  is \<^verbatim>\<open>match.group(1)\<close>, or \<open>None\<close> when \<^verbatim>\<open>re.match\<close> returns \<^verbatim>\<open>None\<close>.
\<close>

fun lazy_group :: "string \<Rightarrow> string \<Rightarrow> string option" where
  "lazy_group pre [] = (if suffix_ok [] then Some pre else None)"
| "lazy_group pre (c # cs) =
     (if suffix_ok (c # cs) then Some pre
      else if c = CHR 0x0A then None
      else lazy_group (pre @ [c]) cs)"

definition re_match :: "string \<Rightarrow> string option" where
  "re_match base = lazy_group [] base"

subsection \<open>\<^verbatim>\<open>normalize\<close>\<close>

definition normalize :: "string \<Rightarrow> string" where
  "normalize name =
     (let (base, ext) = splitext name;
          base = (case re_match base of Some g \<Rightarrow> g | None \<Rightarrow> base)
      in base @ ext)"

subsection \<open>Notions used to state what \<open>splitext\<close> and the pattern do\<close>

text \<open>
  \<open>stem_ok b\<close>: after the last separator of \<open>b\<close> there is a character that is not a dot.
  \<open>has_ext p b e\<close>: \<open>p\<close> is \<open>b\<close>, a dot and \<open>e\<close>, where that dot is the last dot of \<open>p\<close>,
  no separator follows it, and \<open>b\<close> is such a stem.
\<close>

definition stem_ok :: "string \<Rightarrow> bool" where
  "stem_ok b \<longleftrightarrow> (\<exists>u c v. b = u @ c # v \<and> c \<noteq> CHR ''.'' \<and> c \<noteq> CHR ''/'' \<and> CHR ''/'' \<notin> set v)"

definition has_ext :: "string \<Rightarrow> string \<Rightarrow> string \<Rightarrow> bool" where
  "has_ext p b e \<longleftrightarrow> p = b @ CHR ''.'' # e \<and> CHR ''.'' \<notin> set e \<and> CHR ''/'' \<notin> set e \<and> stem_ok b"

text \<open>A dash followed by at least six class characters, with nothing after them.\<close>
definition dash_run :: "string \<Rightarrow> bool" where
  "dash_run s \<longleftrightarrow> (\<exists>t. s = CHR ''-'' # t \<and> 6 \<le> length t \<and> list_all is_hash_char t)"

section \<open>The baseline builder of \<^verbatim>\<open>scripts/generate-baseline.py\<close>\<close>

subsection \<open>The file system and the output\<close>

text \<open>
  The part of the environment the script touches: the directories it can list
  (\<^verbatim>\<open>os.path.isdir\<close>, \<^verbatim>\<open>os.listdir\<close>), the regular files with their bytes
  (\<^verbatim>\<open>os.path.isfile\<close>, \<^verbatim>\<open>os.path.getsize\<close>, \<^verbatim>\<open>open(..., "w")\<close>) and the lines printed so
  far. A path that is in neither map does not exist or is something else (a socket, a
  dangling link). The file system does not change under the script, none of its
  operations fails for lack of permission or space, and the baseline path can be
  written.
\<close>

datatype builder_line =
    AssetsNotFound         \<comment> \<open>\<^verbatim>\<open>Error: dist/assets not found. Run 'bun run build' first.\<close>\<close>
  | BaselineGenerated      \<comment> \<open>\<^verbatim>\<open>Baseline generated: .bundlesize.baseline.json\<close>\<close>
  | TotalChunks nat        \<comment> \<open>\<^verbatim>\<open>Total chunks: {len(chunks)}\<close>\<close>
  | TotalSize nat          \<comment> \<open>\<^verbatim>\<open>Total size: {baseline['total']:,} bytes\<close>\<close>

record world =
  dirs :: "string \<rightharpoonup> string list"
  files :: "string \<rightharpoonup> string"
  stdout :: "builder_line list"

definition ASSETS_DIR :: string where
  "ASSETS_DIR = ''dist/assets''"

definition BASELINE_PATH :: string where
  "BASELINE_PATH = ''.bundlesize.baseline.json''"

definition isdir :: "world \<Rightarrow> string \<Rightarrow> bool" where
  "isdir w p \<longleftrightarrow> dirs w p \<noteq> None"

definition isfile :: "world \<Rightarrow> string \<Rightarrow> bool" where
  "isfile w p \<longleftrightarrow> files w p \<noteq> None"

text \<open>\<^verbatim>\<open>os.path.getsize\<close> raises \<^verbatim>\<open>OSError\<close> on a path that does not exist.\<close>

definition getsize :: "world \<Rightarrow> string \<Rightarrow> nat option" where
  "getsize w p = map_option length (files w p)"

text \<open>
  \<^verbatim>\<open>posixpath.join(a, b)\<close> for two components: an absolute \<open>b\<close> replaces \<open>a\<close>, otherwise
  the two are joined by one separator unless \<open>a\<close> is empty or already ends with one.
\<close>

definition join :: "string \<Rightarrow> string \<Rightarrow> string" where
  "join a b =
     (if prefix ''/'' b then b
      else if a = [] \<or> suffix ''/'' a then a @ b
      else a @ ''/'' @ b)"

definition endswith :: "string \<Rightarrow> string \<Rightarrow> bool" where
  "endswith s suf \<longleftrightarrow> suffix suf s"

subsection \<open>The scan loop\<close>

text \<open>
  The dictionary \<^verbatim>\<open>chunks\<close> is an association list in insertion order;
  \<^verbatim>\<open>chunks.get(norm, 0)\<close> is \<open>chunks_get\<close> and the assignment \<^verbatim>\<open>chunks[norm] = v\<close> is
  \<^const>\<open>AList.update\<close>, which overwrites in place or appends, as a Python \<^verbatim>\<open>dict\<close>
  does.
\<close>

definition chunks_get :: "(string \<times> nat) list \<Rightarrow> string \<Rightarrow> nat \<Rightarrow> nat" where
  "chunks_get chunks k d = (case map_of chunks k of Some v \<Rightarrow> v | None \<Rightarrow> d)"

text \<open>
  The \<^verbatim>\<open>for name in os.listdir(ASSETS_DIR)\<close> loop, lines 25 to 33, over the names still to
  visit. The result is \<open>None\<close> when \<^verbatim>\<open>getsize\<close> raises, which the guard before it excludes.
\<close>

fun scan :: "world \<Rightarrow> string list \<Rightarrow> (string \<times> nat) list \<Rightarrow> (string \<times> nat) list option" where
  "scan w [] chunks = Some chunks"
| "scan w (name # names) chunks =
     (if \<not> (endswith name ''.js'' \<or> endswith name ''.css'') then scan w names chunks
      else let path = join ASSETS_DIR name
           in if \<not> isfile w path then scan w names chunks
              else case getsize w path of
                     None \<Rightarrow> None
                   | Some sz \<Rightarrow>
                       let norm = normalize name
                       in scan w names (AList.update norm (chunks_get chunks norm 0 + sz) chunks))"

subsection \<open>\<^verbatim>\<open>main\<close>\<close>

record baseline =
  generatedAt :: string
  chunks :: "(string \<times> nat) list"
  total :: nat

text \<open>
  \<open>dump\<close> stands for \<^verbatim>\<open>json.dump(baseline, f, indent=2, sort_keys=True)\<close>, the text
  written for a snapshot, and \<open>now\<close> for the UTC timestamp string of line 36; both
  come from outside the repository. The result is the value \<^verbatim>\<open>main\<close> returns, which
  \<^verbatim>\<open>exit(main())\<close> makes the exit status of the process, or \<open>None\<close> when an exception
  escapes, together with the file system and output left behind.
\<close>

definition main :: "(baseline \<Rightarrow> string) \<Rightarrow> string \<Rightarrow> world \<Rightarrow> int option \<times> world" where
  "main dump now w =
     (if \<not> isdir w ASSETS_DIR then (Some 1, w\<lparr>stdout := stdout w @ [AssetsNotFound]\<rparr>)
      else case dirs w ASSETS_DIR of
        None \<Rightarrow> (None, w)
      | Some listing \<Rightarrow>
          (case scan w listing [] of
             None \<Rightarrow> (None, w)
           | Some chunks' \<Rightarrow>
               let baseline = \<lparr>generatedAt = now, chunks = chunks', total = sum_list (map snd chunks')\<rparr>;
                   w' = w\<lparr>files := (files w)(BASELINE_PATH \<mapsto> dump baseline)\<rparr>
               in (Some 0,
                   w'\<lparr>stdout := stdout w' @
                       [BaselineGenerated, TotalChunks (length chunks'), TotalSize (total baseline)]\<rparr>)))"

subsection \<open>Notions used to state what the builder does\<close>

text \<open>
  \<open>counted w name\<close>: the loop does not skip \<open>name\<close>. \<open>asset_size w name\<close>: the byte size
  of that asset. \<open>snapshot now w\<close>: the dictionary \<^verbatim>\<open>baseline\<close> of lines 35 to 39, when
  \<^verbatim>\<open>main\<close> gets that far.
\<close>

definition counted :: "world \<Rightarrow> string \<Rightarrow> bool" where
  "counted w name \<longleftrightarrow>
     (endswith name ''.js'' \<or> endswith name ''.css'') \<and> isfile w (join ASSETS_DIR name)"

definition asset_size :: "world \<Rightarrow> string \<Rightarrow> nat" where
  "asset_size w name = (case files w (join ASSETS_DIR name) of Some bytes \<Rightarrow> length bytes | None \<Rightarrow> 0)"

definition snapshot :: "string \<Rightarrow> world \<Rightarrow> baseline option" where
  "snapshot now w =
     (case dirs w ASSETS_DIR of
        None \<Rightarrow> None
      | Some listing \<Rightarrow>
          map_option (\<lambda>cs. \<lparr>generatedAt = now, chunks = cs, total = sum_list (map snd cs)\<rparr>)
            (scan w listing []))"

section \<open>The report summarizer \<^verbatim>\<open>analyze_report.py\<close>\<close>

subsection \<open>Python values\<close>

text \<open>
  What \<^verbatim>\<open>json.load\<close> returns, and so every value the script handles: \<^verbatim>\<open>None\<close>, a
  \<^verbatim>\<open>bool\<close>, an \<^verbatim>\<open>int\<close>, a \<^verbatim>\<open>float\<close>, a \<^verbatim>\<open>str\<close>, a \<^verbatim>\<open>list\<close> or a \<^verbatim>\<open>dict\<close>. A \<^verbatim>\<open>dict\<close> is
  the list of its items in insertion order. A finite \<^verbatim>\<open>float\<close> is the rational number
  it stands for; the non-finite floats (\<^verbatim>\<open>NaN\<close>, \<^verbatim>\<open>Infinity\<close>), which are not JSON, and
  integers too large for a \<^verbatim>\<open>float\<close> are outside the model.
\<close>

datatype json =
    JNull
  | JBool bool
  | JInt int
  | JFloat rat
  | JStr string
  | JArr "json list"
  | JObj "(string \<times> json) list"

datatype pyexn =
    FileNotFoundError
  | JSONDecodeError
  | AttributeError
  | TypeError
  | ValueError
  | KeyError
  | ZeroDivisionError

text \<open>A number: an \<^verbatim>\<open>int\<close> or a \<^verbatim>\<open>float\<close>. \<^verbatim>\<open>bool\<close> is a subclass of \<^verbatim>\<open>int\<close>.\<close>

datatype pynum = PInt int | PFloat rat

definition to_num :: "json \<Rightarrow> pynum option" where
  "to_num v =
     (case v of
        JInt i \<Rightarrow> Some (PInt i)
      | JBool b \<Rightarrow> Some (PInt (if b then 1 else 0))
      | JFloat q \<Rightarrow> Some (PFloat q)
      | _ \<Rightarrow> None)"

definition num_val :: "pynum \<Rightarrow> rat" where
  "num_val n = (case n of PInt i \<Rightarrow> of_int i | PFloat q \<Rightarrow> q)"

text \<open>
  Floating-point arithmetic rounds its exact result to a \<^verbatim>\<open>float\<close>; the rounding
  function \<open>rnd\<close> is a parameter of the model. \<^verbatim>\<open>float(n)\<close>:
\<close>

definition as_float :: "(rat \<Rightarrow> rat) \<Rightarrow> pynum \<Rightarrow> rat" where
  "as_float rnd n = (case n of PInt i \<Rightarrow> rnd (of_int i) | PFloat q \<Rightarrow> q)"

text \<open>\<^verbatim>\<open>a - b\<close>: exact on two \<^verbatim>\<open>int\<close>s, a \<^verbatim>\<open>float\<close> otherwise, \<^verbatim>\<open>TypeError\<close> off numbers.\<close>

definition num_sub :: "(rat \<Rightarrow> rat) \<Rightarrow> pynum \<Rightarrow> pynum \<Rightarrow> pynum" where
  "num_sub rnd a b =
     (case (a, b) of
        (PInt i, PInt j) \<Rightarrow> PInt (i - j)
      | _ \<Rightarrow> PFloat (rnd (as_float rnd a - as_float rnd b)))"

definition py_sub :: "(rat \<Rightarrow> rat) \<Rightarrow> json \<Rightarrow> json \<Rightarrow> pyexn + pynum" where
  "py_sub rnd a b =
     (case (to_num a, to_num b) of
        (Some x, Some y) \<Rightarrow> Inr (num_sub rnd x y)
      | _ \<Rightarrow> Inl TypeError)"

text \<open>\<^verbatim>\<open>a > 0\<close>: numbers compare by value, anything else raises \<^verbatim>\<open>TypeError\<close>.\<close>

definition py_gt0 :: "json \<Rightarrow> pyexn + bool" where
  "py_gt0 a = (case to_num a of Some x \<Rightarrow> Inr (num_val x > 0) | None \<Rightarrow> Inl TypeError)"

text \<open>
  \<^verbatim>\<open>a / b\<close>, true division: \<^verbatim>\<open>ZeroDivisionError\<close> on a zero divisor, otherwise a
  \<^verbatim>\<open>float\<close>; the quotient of two \<^verbatim>\<open>int\<close>s is rounded once.
\<close>

definition num_truediv :: "(rat \<Rightarrow> rat) \<Rightarrow> pynum \<Rightarrow> pynum \<Rightarrow> pyexn + pynum" where
  "num_truediv rnd a b =
     (if num_val b = 0 then Inl ZeroDivisionError
      else case (a, b) of
        (PInt i, PInt j) \<Rightarrow> Inr (PFloat (rnd (of_int i / of_int j)))
      | _ \<Rightarrow> Inr (PFloat (rnd (as_float rnd a / as_float rnd b))))"

definition py_truediv :: "(rat \<Rightarrow> rat) \<Rightarrow> pynum \<Rightarrow> json \<Rightarrow> pyexn + pynum" where
  "py_truediv rnd a b =
     (case to_num b of Some y \<Rightarrow> num_truediv rnd a y | None \<Rightarrow> Inl TypeError)"

definition py_abs :: "pynum \<Rightarrow> pynum" where
  "py_abs n = (case n of PInt i \<Rightarrow> PInt \<bar>i\<bar> | PFloat q \<Rightarrow> PFloat \<bar>q\<bar>)"

text \<open>
  \<^verbatim>\<open>obj.get(key, default)\<close>: only a \<^verbatim>\<open>dict\<close> has the method. \<^verbatim>\<open>obj[key]\<close> with a string
  key: \<^verbatim>\<open>KeyError\<close> on a \<^verbatim>\<open>dict\<close> without the key, \<^verbatim>\<open>TypeError\<close> on anything else.
  \<^verbatim>\<open>obj.items()\<close>: only a \<^verbatim>\<open>dict\<close> has the method.
\<close>

definition dict_get :: "json \<Rightarrow> string \<Rightarrow> json \<Rightarrow> pyexn + json" where
  "dict_get obj key dflt =
     (case obj of
        JObj kvs \<Rightarrow> Inr (case map_of kvs key of Some v \<Rightarrow> v | None \<Rightarrow> dflt)
      | _ \<Rightarrow> Inl AttributeError)"

definition subscript :: "json \<Rightarrow> string \<Rightarrow> pyexn + json" where
  "subscript obj key =
     (case obj of
        JObj kvs \<Rightarrow> (case map_of kvs key of Some v \<Rightarrow> Inr v | None \<Rightarrow> Inl KeyError)
      | _ \<Rightarrow> Inl TypeError)"

definition dict_items :: "json \<Rightarrow> pyexn + (string \<times> json) list" where
  "dict_items obj = (case obj of JObj kvs \<Rightarrow> Inr kvs | _ \<Rightarrow> Inl AttributeError)"

text \<open>
  A replacement field with a numeric format (\<^verbatim>\<open>:,\<close> \<^verbatim>\<open>:+,\<close> \<^verbatim>\<open>:.1%\<close>) accepts a number and
  shows a \<^verbatim>\<open>bool\<close> as an \<^verbatim>\<open>int\<close>; a \<^verbatim>\<open>str\<close> raises \<^verbatim>\<open>ValueError\<close> and \<^verbatim>\<open>None\<close>, a \<^verbatim>\<open>list\<close>
  or a \<^verbatim>\<open>dict\<close> raise \<^verbatim>\<open>TypeError\<close>.
\<close>

definition fmt_num :: "json \<Rightarrow> pyexn + pynum" where
  "fmt_num v =
     (case to_num v of
        Some n \<Rightarrow> Inr n
      | None \<Rightarrow> (case v of JStr _ \<Rightarrow> Inl ValueError | _ \<Rightarrow> Inl TypeError))"

subsection \<open>Sequencing\<close>

text \<open>\<open>exn_bind\<close> runs the next step unless an exception is under way.\<close>

definition exn_bind :: "pyexn + 'a \<Rightarrow> ('a \<Rightarrow> pyexn + 'b) \<Rightarrow> pyexn + 'b" where
  "exn_bind m f = (case m of Inl e \<Rightarrow> Inl e | Inr v \<Rightarrow> f v)"

text \<open>
  The printed lines, each kept as the values its f-string shows. A line whose f-string
  raises is not printed.
\<close>

datatype line =
    OverallStatus json                   \<comment> \<open>\<^verbatim>\<open>Overall status: {status}\<close>\<close>
  | TotalBaseline pynum                  \<comment> \<open>\<^verbatim>\<open>Total baseline: {total_baseline:,} bytes\<close>\<close>
  | TotalCurrent pynum                   \<comment> \<open>\<^verbatim>\<open>Total current: {total_current:,} bytes\<close>\<close>
  | TotalDelta pynum pynum               \<comment> \<open>\<^verbatim>\<open>Total delta: {total_delta:,} bytes ({total_delta_pct:.1%})\<close>\<close>
  | Blank
  | FailingHeader                        \<comment> \<open>\<^verbatim>\<open>Failing/Warning chunks:\<close>\<close>
  | ChunkLine string json pynum pynum pynum pynum
      \<comment> \<open>name, status, baseline bytes, current bytes, delta, delta percentage\<close>
  | ErrorLine pyexn                      \<comment> \<open>\<^verbatim>\<open>Error reading report: {e}\<close>\<close>

text \<open>
  \<open>emit\<close> prints a sequence of lines, stopping at the first one that raises: the result
  is what was printed and the exception, if any.
\<close>

fun emit :: "(pyexn + line) list \<Rightarrow> line list \<times> pyexn option" where
  "emit [] = ([], None)"
| "emit (Inl e # rest) = ([], Some e)"
| "emit (Inr l # rest) = (case emit rest of (ls, r) \<Rightarrow> (l # ls, r))"

subsection \<open>The body of the \<^verbatim>\<open>try\<close> block\<close>

text \<open>
  \<open>load\<close> is lines 5 and 6: \<^verbatim>\<open>open\<close> raises when the report file is missing,
  \<^verbatim>\<open>json.load\<close> raises when its text is not JSON. The JSON reader itself is the
  library's; it is the parameter \<open>parse\<close>.
\<close>

definition REPORT_PATH :: string where
  "REPORT_PATH = ''.bundlesize.report.json''"

definition load :: "(string \<Rightarrow> json option) \<Rightarrow> (string \<rightharpoonup> string) \<Rightarrow> pyexn + json" where
  "load parse fs =
     (case fs REPORT_PATH of
        None \<Rightarrow> Inl FileNotFoundError
      | Some text \<Rightarrow> (case parse text of None \<Rightarrow> Inl JSONDecodeError | Some report \<Rightarrow> Inr report))"

text \<open>Line 14.\<close>

definition total_delta_pct :: "(rat \<Rightarrow> rat) \<Rightarrow> pynum \<Rightarrow> json \<Rightarrow> pyexn + pynum" where
  "total_delta_pct rnd total_delta total_baseline =
     exn_bind (py_gt0 total_baseline) (\<lambda>positive.
       if positive then py_truediv rnd total_delta total_baseline else Inr (PInt 0))"

text \<open>
  Lines 8 to 14: the four totals, in the order \<open>total_baseline\<close>, \<open>total_current\<close>,
  \<open>total_delta\<close>, \<open>total_delta_pct\<close>.
\<close>

definition totals :: "(rat \<Rightarrow> rat) \<Rightarrow> json \<Rightarrow> pyexn + (json \<times> json \<times> pynum \<times> pynum)" where
  "totals rnd report =
     exn_bind (dict_get report ''baseline'' (JObj [])) (\<lambda>baseline.
     exn_bind (dict_get report ''current'' (JObj [])) (\<lambda>current.
     exn_bind (dict_get baseline ''totalBytes'' (JInt 0)) (\<lambda>total_baseline.
     exn_bind (dict_get current ''totalBytes'' (JInt 0)) (\<lambda>total_current.
     exn_bind (py_sub rnd total_current total_baseline) (\<lambda>total_delta.
     exn_bind (total_delta_pct rnd total_delta total_baseline) (\<lambda>pct.
       Inr (total_baseline, total_current, total_delta, pct)))))))"

text \<open>Lines 16 to 21, one entry for each \<^verbatim>\<open>print\<close>.\<close>

definition header :: "json \<Rightarrow> json \<times> json \<times> pynum \<times> pynum \<Rightarrow> (pyexn + line) list" where
  "header report t =
     (case t of (total_baseline, total_current, total_delta, pct) \<Rightarrow>
        [exn_bind (dict_get report ''status'' (JStr ''unknown'')) (\<lambda>s. Inr (OverallStatus s)),
         exn_bind (fmt_num total_baseline) (\<lambda>b. Inr (TotalBaseline b)),
         exn_bind (fmt_num total_current) (\<lambda>c. Inr (TotalCurrent c)),
         Inr (TotalDelta total_delta pct),
         Inr Blank,
         Inr FailingHeader])"

text \<open>
  Lines 24 to 27: the loop that collects the chunks whose status is \<^verbatim>\<open>fail\<close> or \<^verbatim>\<open>warn\<close>,
  over the items still to visit.
\<close>

fun collect :: "(string \<times> json) list \<Rightarrow> pyexn + (string \<times> json) list" where
  "collect [] = Inr []"
| "collect ((name, chunk) # rest) =
     exn_bind (dict_get chunk ''status'' JNull) (\<lambda>status.
     exn_bind (collect rest) (\<lambda>failing_chunks.
       Inr (if status \<in> set [JStr ''fail'', JStr ''warn'']
            then (name, chunk) # failing_chunks else failing_chunks)))"

text \<open>The sort key of line 30.\<close>

definition abs_delta :: "(rat \<Rightarrow> rat) \<Rightarrow> string \<times> json \<Rightarrow> pyexn + pynum" where
  "abs_delta rnd x =
     exn_bind (dict_get (snd x) ''currentBytes'' (JInt 0)) (\<lambda>c.
     exn_bind (dict_get (snd x) ''baselineBytes'' (JInt 0)) (\<lambda>b.
     exn_bind (py_sub rnd c b) (\<lambda>d. Inr (py_abs d))))"

text \<open>
  \<^verbatim>\<open>list.sort(key=..., reverse=True)\<close> first computes the key of every element, in order,
  then sorts by descending key, keeping elements with equal keys in their original
  order; numbers compare by value. \<open>keyed\<close> pairs every element with its key.
\<close>

fun keyed :: "('a \<Rightarrow> pyexn + pynum) \<Rightarrow> 'a list \<Rightarrow> pyexn + (pynum \<times> 'a) list" where
  "keyed key [] = Inr []"
| "keyed key (x # xs) =
     exn_bind (key x) (\<lambda>k. exn_bind (keyed key xs) (\<lambda>ks. Inr ((k, x) # ks)))"

definition sort_reverse :: "('a \<Rightarrow> pyexn + pynum) \<Rightarrow> 'a list \<Rightarrow> pyexn + 'a list" where
  "sort_reverse key xs =
     exn_bind (keyed key xs) (\<lambda>ks. Inr (map snd (sort_key (\<lambda>p. - num_val (fst p)) ks)))"

text \<open>Lines 33 to 38: the line printed for one chunk.\<close>

definition render :: "(rat \<Rightarrow> rat) \<Rightarrow> string \<times> json \<Rightarrow> pyexn + line" where
  "render rnd x =
     (case x of (name, chunk) \<Rightarrow>
        exn_bind (subscript chunk ''status'') (\<lambda>status.
        exn_bind (dict_get chunk ''baselineBytes'' (JInt 0)) (\<lambda>baseline_bytes.
        exn_bind (dict_get chunk ''currentBytes'' (JInt 0)) (\<lambda>current_bytes.
        exn_bind (py_sub rnd current_bytes baseline_bytes) (\<lambda>delta.
        exn_bind (dict_get chunk ''deltaPct'' (JInt 0)) (\<lambda>delta_pct.
        exn_bind (fmt_num baseline_bytes) (\<lambda>b.
        exn_bind (fmt_num current_bytes) (\<lambda>c.
        exn_bind (fmt_num delta_pct) (\<lambda>p.
          Inr (ChunkLine name status b c delta p))))))))))"

text \<open>
  Lines 23 to 30: the chunks to show, \<^verbatim>\<open>failing_chunks\<close> after the sort.
\<close>

definition failing_chunks :: "(rat \<Rightarrow> rat) \<Rightarrow> json \<Rightarrow> pyexn + (string \<times> json) list" where
  "failing_chunks rnd report =
     exn_bind (dict_get report ''chunks'' (JObj [])) (\<lambda>chunks.
     exn_bind (dict_items chunks) (\<lambda>items.
     exn_bind (collect items) (\<lambda>failing.
       sort_reverse (abs_delta rnd) failing)))"

text \<open>
  Lines 8 to 38 on a loaded report: what is printed, and the exception that ends the
  block early, if any.
\<close>

definition summarize :: "(rat \<Rightarrow> rat) \<Rightarrow> json \<Rightarrow> line list \<times> pyexn option" where
  "summarize rnd report =
     (case totals rnd report of
        Inl e \<Rightarrow> ([], Some e)
      | Inr t \<Rightarrow>
          (case emit (header report t) of
             (hdr, Some e) \<Rightarrow> (hdr, Some e)
           | (hdr, None) \<Rightarrow>
               (case failing_chunks rnd report of
                  Inl e \<Rightarrow> (hdr, Some e)
                | Inr failing \<Rightarrow>
                    (case emit (map (render rnd) (take 50 failing)) of
                       (ls, r) \<Rightarrow> (hdr @ ls, r)))))"

subsection \<open>The script\<close>

text \<open>
  The \<^verbatim>\<open>try\<close> block with its handler: every exception the block can raise is an
  \<^verbatim>\<open>Exception\<close>, so the handler of line 40 catches it and prints one more line. After
  the \<^verbatim>\<open>try\<close> statement the script ends; nothing sets an exit status, so the process
  exits with status 0. The result is the printed lines and the exit status.
\<close>

definition analyze_report ::
  "(rat \<Rightarrow> rat) \<Rightarrow> (string \<Rightarrow> json option) \<Rightarrow> (string \<rightharpoonup> string) \<Rightarrow> line list \<times> int" where
  "analyze_report rnd parse fs =
     (let (out, raised) =
            (case load parse fs of
               Inl e \<Rightarrow> ([], Some e)
             | Inr report \<Rightarrow> summarize rnd report)
      in case raised of
           None \<Rightarrow> (out, 0)
         | Some e \<Rightarrow> (out @ [ErrorLine e], 0))"

subsection \<open>Notions used to state what the summarizer does\<close>

text \<open>
  \<open>shown_status c\<close>: the chunk \<open>c\<close> has status \<^verbatim>\<open>fail\<close> or \<^verbatim>\<open>warn\<close>. \<open>delta_size rnd x\<close>:
  the absolute byte delta of the item \<open>x\<close>, as a number.
\<close>

definition shown_status :: "json \<Rightarrow> bool" where
  "shown_status c \<longleftrightarrow> dict_get c ''status'' JNull \<in> {Inr (JStr ''fail''), Inr (JStr ''warn'')}"


text \<open>
  \<open>well_formed_report r\<close>: \<open>r\<close> has the shape of a report document. It is a \<^verbatim>\<open>dict\<close>; its
  \<^verbatim>\<open>baseline\<close> and \<^verbatim>\<open>current\<close>, when present, are \<^verbatim>\<open>dict\<close>s whose \<^verbatim>\<open>totalBytes\<close>, when
  present, is a number; its \<^verbatim>\<open>chunks\<close>, when present, is a \<^verbatim>\<open>dict\<close> of \<^verbatim>\<open>dict\<close>s whose
  \<^verbatim>\<open>baselineBytes\<close>, \<^verbatim>\<open>currentBytes\<close> and \<^verbatim>\<open>deltaPct\<close>, when present, are numbers.
\<close>

definition numeric_or_absent :: "(string \<times> json) list \<Rightarrow> string \<Rightarrow> bool" where
  "numeric_or_absent kvs k = (case map_of kvs k of None \<Rightarrow> True | Some v \<Rightarrow> to_num v \<noteq> None)"

definition well_formed_chunk :: "json \<Rightarrow> bool" where
  "well_formed_chunk c =
     (case c of
        JObj kvs \<Rightarrow> numeric_or_absent kvs ''baselineBytes'' \<and> numeric_or_absent kvs ''currentBytes'' \<and>
                    numeric_or_absent kvs ''deltaPct''
      | _ \<Rightarrow> False)"

definition well_formed_total :: "(string \<times> json) list \<Rightarrow> string \<Rightarrow> bool" where
  "well_formed_total kvs k =
     (case map_of kvs k of
        None \<Rightarrow> True
      | Some (JObj t) \<Rightarrow> numeric_or_absent t ''totalBytes''
      | Some _ \<Rightarrow> False)"

definition well_formed_report :: "json \<Rightarrow> bool" where
  "well_formed_report r =
     (case r of
        JObj kvs \<Rightarrow>
          well_formed_total kvs ''baseline'' \<and> well_formed_total kvs ''current'' \<and>
          (case map_of kvs ''chunks'' of
             None \<Rightarrow> True
           | Some (JObj items) \<Rightarrow> list_all (\<lambda>x. well_formed_chunk (snd x)) items
           | Some _ \<Rightarrow> False)
      | _ \<Rightarrow> False)"

section \<open>The per-chunk classifier\<close>

text \<open>
  The comparator that writes the report is not among the Python sources; the summarizer
  only reads its output. Its per-chunk rule is modelled from the specification.
\<close>

datatype status = Pass | Warn | Fail

record thresholds =
  warnPct :: "rat option"
  failPct :: "rat option"
  warnBytes :: "int option"
  failBytes :: "int option"

record chunk_result =
  status :: status
  baselineBytes :: int
  currentBytes :: int
  deltaPct :: rat

text \<open>
  Modelled from the spec: the relative change of a chunk, which the comparator computes.
  \<open>deltaPct = delta / baselineBytes\<close>, and a chunk with no baseline bytes is a new chunk,
  whose change is +100%.
\<close>

definition delta_pct :: "int \<Rightarrow> int \<Rightarrow> rat" where
  "delta_pct baseline_bytes current_bytes =
     (if baseline_bytes = 0 then 1
      else of_int (current_bytes - baseline_bytes) / of_int baseline_bytes)"

text \<open>
  Modelled from the spec: the breach test of the comparator. A threshold is an absolute byte
  delta and/or a percentage delta, and exceeding either one that is configured is a
  breach.
\<close>

definition breach :: "rat option \<Rightarrow> int option \<Rightarrow> int \<Rightarrow> rat \<Rightarrow> bool" where
  "breach pct bytes delta dpct \<longleftrightarrow>
     (case pct of Some p \<Rightarrow> dpct > p | None \<Rightarrow> False) \<or>
     (case bytes of Some b \<Rightarrow> delta > b | None \<Rightarrow> False)"

text \<open>
  Modelled from the spec: the per-chunk classification of the comparator. \<open>fail\<close> if the
  change exceeds the fail threshold, \<open>warn\<close> if it exceeds the warn threshold but not the
  fail threshold, otherwise \<open>pass\<close>.
\<close>

definition classify_chunk :: "thresholds \<Rightarrow> int \<Rightarrow> int \<Rightarrow> chunk_result" where
  "classify_chunk t baseline_bytes current_bytes =
     (let delta = current_bytes - baseline_bytes;
          dpct = delta_pct baseline_bytes current_bytes
      in \<lparr>status =
            (if breach (failPct t) (failBytes t) delta dpct then Fail
             else if breach (warnPct t) (warnBytes t) delta dpct then Warn
             else Pass),
          baselineBytes = baseline_bytes,
          currentBytes = current_bytes,
          deltaPct = dpct\<rparr>)"

section \<open>Example inputs\<close>

text \<open>
  An assets directory with two regular files that normalize to the same identity, of 100
  and 50 bytes, and no baseline file yet.
\<close>

definition two_foo_world :: world where
  "two_foo_world =
     \<lparr>dirs = [ASSETS_DIR \<mapsto> [''foo-111111.js'', ''foo-222222.js'']],
      files = [''dist/assets/foo-111111.js'' \<mapsto> replicate 100 (CHR ''x''),
               ''dist/assets/foo-222222.js'' \<mapsto> replicate 50 (CHR ''y'')],
      stdout = []\<rparr>"

text \<open>No assets directory, and a baseline file left by an earlier run.\<close>

definition unbuilt_world :: world where
  "unbuilt_world = \<lparr>dirs = Map.empty, files = [BASELINE_PATH \<mapsto> ''{}''], stdout = []\<rparr>"

text \<open>A stand-in for the serializer and for the clock in the examples.\<close>

definition sample_dump :: "baseline \<Rightarrow> string" where
  "sample_dump b = generatedAt b @ concat (map fst (chunks b))"

definition sample_now :: string where
  "sample_now = ''2024-05-01T00:00:00Z''"

text \<open>
  A directory without a report file, a report file that is not JSON, and a reader that
  accepts no text.
\<close>

definition no_files :: "string \<rightharpoonup> string" where
  "no_files = Map.empty"

definition garbled_report :: "string \<rightharpoonup> string" where
  "garbled_report = [REPORT_PATH \<mapsto> ''{status: '']"

definition reject_all :: "string \<Rightarrow> json option" where
  "reject_all text = None"

text \<open>A report with a failing, a passing and a warning chunk.\<close>

definition sample_chunk :: "string \<Rightarrow> int \<Rightarrow> int \<Rightarrow> rat \<Rightarrow> json" where
  "sample_chunk st b c p =
     JObj [(''status'', JStr st), (''baselineBytes'', JInt b), (''currentBytes'', JInt c),
           (''deltaPct'', JFloat p)]"

definition sample_report :: json where
  "sample_report =
     JObj [(''status'', JStr ''fail''),
           (''baseline'', JObj [(''totalBytes'', JInt 3000)]),
           (''current'', JObj [(''totalBytes'', JInt 3700)]),
           (''chunks'', JObj [(''app.js'', sample_chunk ''fail'' 1000 1300 (3 / 10)),
                              (''vendor.js'', sample_chunk ''pass'' 1500 1510 (1 / 150)),
                              (''ui.css'', sample_chunk ''warn'' 500 890 (39 / 50))])]"

section \<open>Properties of the normalizer\<close>

subsection \<open>\<open>rfind\<close> and \<open>splitext\<close>\<close>

lemma rfind_from_absent: "c \<notin> set s \<Longrightarrow> rfind_from c s i r = r"
  by (induction s arbitrary: i r) auto

lemma rfind_from_append:
  "rfind_from c (xs @ ys) i r = rfind_from c ys (i + int (length xs)) (rfind_from c xs i r)"
  by (induction xs arbitrary: i r) (auto simp: algebra_simps)

lemma rfind_absent: "c \<notin> set s \<Longrightarrow> rfind c s = - 1"
  by (simp add: rfind_def rfind_from_absent)

lemma rfind_last: "c \<notin> set t \<Longrightarrow> rfind c (b @ c # t) = int (length b)"
  by (simp add: rfind_def rfind_from_append rfind_from_absent)

lemma rfind_nonneg: "0 \<le> rfind c s \<Longrightarrow> \<exists>b t. s = b @ c # t \<and> c \<notin> set t"
proof (cases "c \<in> set s")
  case True
  then show ?thesis using split_list_last by fastforce
next
  case False
  assume "0 \<le> rfind c s"
  with False show ?thesis by (simp add: rfind_absent)
qed

lemma rfind_after:
  assumes "rfind c s < int j" and "j < length s"
  shows "s ! j \<noteq> c"
proof (cases "c \<in> set s")
  case True
  then obtain b t where s: "s = b @ c # t" and t: "c \<notin> set t"
    using split_list_last by fastforce
  from assms(1) have "length b < j" by (simp add: s rfind_last t)
  with assms(2) have "s ! j = t ! (j - length b - 1)" "j - length b - 1 < length t"
    by (auto simp: s nth_append nth_Cons')
  with t show ?thesis by (metis nth_mem)
next
  case False
  with assms(2) show ?thesis by (metis nth_mem)
qed

lemma last_split_unique:
  assumes "b @ c # t = b' @ (c::char) # t'" "c \<notin> set t" "c \<notin> set t'"
  shows "b = b' \<and> t = t'"
proof -
  have "int (length b) = rfind c (b @ c # t)" using assms(2) by (simp add: rfind_last)
  also have "\<dots> = int (length b')" using assms(1,3) by (simp add: rfind_last)
  finally show ?thesis using assms(1) by simp
qed

lemma splitext_ext:
  assumes "has_ext p b e"
  shows "splitext p = (b, CHR ''.'' # e)"
proof -
  from assms obtain u c v where p: "p = b @ CHR ''.'' # e" and e: "CHR ''.'' \<notin> set e" "CHR ''/'' \<notin> set e"
    and b: "b = u @ c # v" and c: "c \<noteq> CHR ''.''" "c \<noteq> CHR ''/''" and v: "CHR ''/'' \<notin> set v"
    by (auto simp: has_ext_def stem_ok_def)
  have dot: "rfind (CHR ''.'') p = int (length b)" using e by (simp add: p rfind_last)
  have sep: "rfind (CHR ''/'') p < int (length u)"
  proof (cases "CHR ''/'' \<in> set u")
    case True
    then obtain u1 u2 where u: "u = u1 @ CHR ''/'' # u2" "CHR ''/'' \<notin> set u2"
      using split_list_last by fastforce
    have "p = u1 @ CHR ''/'' # (u2 @ c # v @ CHR ''.'' # e)" by (simp add: p b u)
    moreover have "CHR ''/'' \<notin> set (u2 @ c # v @ CHR ''.'' # e)" using u c v e by auto
    ultimately have "rfind (CHR ''/'') p = int (length u1)"
      using rfind_last[of "CHR ''/''" "u2 @ c # v @ CHR ''.'' # e" u1] by simp
    then show ?thesis by (simp add: u)
  next
    case False
    then have "CHR ''/'' \<notin> set p" using c v e by (auto simp: p b)
    then show ?thesis by (simp add: rfind_absent)
  qed
  have m1: "- 1 \<le> rfind (CHR ''/'') p"
    by (cases "CHR ''/'' \<in> set p") (use rfind_nonneg[of "CHR ''/''" p] in \<open>auto simp: rfind_absent dest!: split_list_last simp: rfind_last\<close>)
  have "length u \<in> set [nat (rfind (CHR ''/'') p + 1) ..< nat (rfind (CHR ''.'') p)]"
    using sep dot m1 by (auto simp: b)
  moreover have "p ! length u \<noteq> CHR ''.''" using c by (simp add: p b nth_append)
  ultimately have "list_ex (\<lambda>i. p ! i \<noteq> CHR ''.'') [nat (rfind (CHR ''/'') p + 1) ..< nat (rfind (CHR ''.'') p)]"
    unfolding list_ex_iff by blast
  moreover have "rfind (CHR ''.'') p > rfind (CHR ''/'') p" using sep dot by (simp add: b)
  ultimately show ?thesis
    by (simp add: splitext_def Let_def dot) (simp add: p)
qed

lemma splitext_noext:
  assumes "\<not> (\<exists>b e. has_ext p b e)"
  shows "splitext p = (p, [])"
proof (rule ccontr)
  assume neq: "splitext p \<noteq> (p, [])"
  let ?s = "rfind (CHR ''/'') p" and ?d = "rfind (CHR ''.'') p"
  from neq have gt: "?d > ?s"
    and ex: "list_ex (\<lambda>i. p ! i \<noteq> CHR ''.'') [nat (?s + 1) ..< nat ?d]"
    by (auto simp: splitext_def Let_def split: if_splits)
  from ex obtain i where i: "nat (?s + 1) \<le> i" "i < nat ?d" "p ! i \<noteq> CHR ''.''"
    unfolding list_ex_iff by auto
  then have "0 \<le> ?d" by simp
  then obtain b e where p: "p = b @ CHR ''.'' # e" and e: "CHR ''.'' \<notin> set e"
    using rfind_nonneg by blast
  have d: "?d = int (length b)" using e by (simp add: p rfind_last)
  have after: "\<And>j. i \<le> j \<Longrightarrow> j < length p \<Longrightarrow> p ! j \<noteq> CHR ''/''"
    using i(1) by (intro rfind_after) auto
  have ib: "i < length b" using i(2) d by simp
  have "CHR ''/'' \<notin> set e"
  proof
    assume "CHR ''/'' \<in> set e"
    then obtain k where k: "k < length e" "e ! k = CHR ''/''" by (auto simp: in_set_conv_nth)
    have "p ! (length b + 1 + k) = e ! k" by (simp add: p nth_append)
    moreover have "p ! (length b + 1 + k) \<noteq> CHR ''/''"
      using ib k(1) by (intro after) (auto simp: p)
    ultimately show False using k(2) by simp
  qed
  moreover have "stem_ok b"
  proof -
    have b: "b = take i b @ b ! i # drop (Suc i) b" using ib by (simp add: id_take_nth_drop)
    have bi: "b ! i = p ! i" using ib by (simp add: p nth_append)
    have "CHR ''/'' \<notin> set (drop (Suc i) b)"
    proof
      assume "CHR ''/'' \<in> set (drop (Suc i) b)"
      then obtain k where k: "k < length (drop (Suc i) b)" "drop (Suc i) b ! k = CHR ''/''"
        by (auto simp: in_set_conv_nth)
      then have "Suc i + k < length b" by simp
      then have "p ! (Suc i + k) = CHR ''/''" using k(2) by (simp add: p nth_append)
      moreover have "p ! (Suc i + k) \<noteq> CHR ''/''"
        using \<open>Suc i + k < length b\<close> by (intro after) (auto simp: p)
      ultimately show False by simp
    qed
    moreover have "b ! i \<noteq> CHR ''/''" using after[of i] ib by (simp add: bi p)
    moreover have "b ! i \<noteq> CHR ''.''" using i(3) bi by simp
    ultimately show ?thesis unfolding stem_ok_def using b by blast
  qed
  ultimately have "has_ext p b e" using p e by (simp add: has_ext_def)
  with assms show False by blast
qed

lemma has_ext_unique: "has_ext p b e \<Longrightarrow> has_ext p b' e' \<Longrightarrow> b = b' \<and> e = e'"
  unfolding has_ext_def using last_split_unique by metis

subsection \<open>The pattern\<close>

lemma hash_char_not_special:
  "is_hash_char c \<Longrightarrow> c \<noteq> CHR ''.'' \<and> c \<noteq> CHR ''/'' \<and> c \<noteq> CHR 0x0A"
  by (auto simp: is_hash_char_def in_range_def)

lemma is_marker_hash: "is_marker c \<Longrightarrow> is_hash_char c"
  by (auto simp: is_marker_def is_hash_char_def)

lemma dash_hash [simp]: "is_hash_char (CHR ''-'')"
  by (simp add: is_hash_char_def)

lemma hash_tail_iff:
  "hash_tail s \<longleftrightarrow> (\<exists>t nl. s = t @ nl \<and> dash_run t \<and> at_end nl)"
proof
  assume "hash_tail s"
  then obtain t where s: "s = CHR ''-'' # t" and len: "6 \<le> length (takeWhile is_hash_char t)"
    and e: "at_end (dropWhile is_hash_char t)"
    by (auto simp: hash_tail_def split: list.splits)
  have "s = (CHR ''-'' # takeWhile is_hash_char t) @ dropWhile is_hash_char t" by (simp add: s)
  moreover have "dash_run (CHR ''-'' # takeWhile is_hash_char t)"
    using len by (auto simp: dash_run_def list_all_iff dest: set_takeWhileD)
  ultimately show "\<exists>t nl. s = t @ nl \<and> dash_run t \<and> at_end nl" using e by blast
next
  assume "\<exists>t nl. s = t @ nl \<and> dash_run t \<and> at_end nl"
  then obtain t nl where s: "s = (CHR ''-'' # t) @ nl" and len: "6 \<le> length t"
    and t: "list_all is_hash_char t" and nl: "at_end nl"
    by (auto simp: dash_run_def)
  have nh: "nl = [] \<or> \<not> is_hash_char (hd nl)" using nl by (auto simp: at_end_def is_hash_char_def in_range_def)
  have tw: "takeWhile is_hash_char (t @ nl) = t" using t nh
    by (cases nl) (auto simp: list_all_iff takeWhile_append)
  have dw: "dropWhile is_hash_char (t @ nl) = nl" using t nh
    by (cases nl) (auto simp: list_all_iff dropWhile_append)
  show "hash_tail s" using len nl by (simp add: s hash_tail_def tw dw)
qed

lemma dash_run_marker: "is_marker b \<Longrightarrow> dash_run t \<Longrightarrow> dash_run (CHR ''-'' # b # t)"
  by (auto simp: dash_run_def is_marker_hash)

lemma suffix_ok_iff: "suffix_ok s \<longleftrightarrow> (\<exists>t nl. s = t @ nl \<and> dash_run t \<and> at_end nl)"
proof
  assume "suffix_ok s"
  then consider (opt) b r where "s = CHR ''-'' # b # r" "is_marker b" "hash_tail r" | (plain) "hash_tail s"
    by (auto simp: suffix_ok_def split: list.splits)
  then show "\<exists>t nl. s = t @ nl \<and> dash_run t \<and> at_end nl"
  proof cases
    case opt
    then obtain t nl where "r = t @ nl" "dash_run t" "at_end nl" by (auto simp: hash_tail_iff)
    then have "s = (CHR ''-'' # b # t) @ nl" "dash_run (CHR ''-'' # b # t)"
      using opt by (auto intro: dash_run_marker)
    then show ?thesis using \<open>at_end nl\<close> by blast
  next
    case plain
    then show ?thesis by (simp add: hash_tail_iff)
  qed
next
  assume "\<exists>t nl. s = t @ nl \<and> dash_run t \<and> at_end nl"
  then have "hash_tail s" by (simp add: hash_tail_iff)
  then show "suffix_ok s" by (simp add: suffix_ok_def)
qed

text \<open>The optional group of the pattern never decides whether it matches.\<close>

lemma optional_marker_redundant: "suffix_ok s \<longleftrightarrow> hash_tail s"
  by (simp add: suffix_ok_iff hash_tail_iff)

lemma dash_run_chars: "dash_run t \<Longrightarrow> c \<in> set t \<Longrightarrow> is_hash_char c"
  by (auto simp: dash_run_def list_all_iff)

lemma suffix_ok_chars:
  assumes "suffix_ok s" "c \<in> set s"
  shows "is_hash_char c \<or> c = CHR 0x0A"
  using assms by (auto simp: suffix_ok_iff at_end_def dest: dash_run_chars)

lemma suffix_ok_no_dot: "suffix_ok s \<Longrightarrow> CHR ''.'' \<notin> set s \<and> CHR ''/'' \<notin> set s"
  using suffix_ok_chars hash_char_not_special by fastforce

lemma suffix_ok_nonempty: "suffix_ok s \<Longrightarrow> \<exists>t. s = CHR ''-'' # t"
  by (auto simp: suffix_ok_iff dash_run_def)

lemma dash_run_append:
  "dash_run r \<Longrightarrow> dash_run t \<Longrightarrow> dash_run (r @ t)"
  by (auto simp: dash_run_def)

lemma suffix_ok_extend:
  assumes "suffix_ok r'" "CHR 0x0A \<notin> set r'" "suffix_ok r"
  shows "suffix_ok (r' @ r)"
proof -
  from assms(1,2) have "dash_run r'" by (auto simp: suffix_ok_iff at_end_def)
  moreover from assms(3) obtain t nl where "r = t @ nl" "dash_run t" "at_end nl"
    by (auto simp: suffix_ok_iff)
  ultimately have "r' @ r = (r' @ t) @ nl" "dash_run (r' @ t)" "at_end nl"
    by (auto intro: dash_run_append)
  then show ?thesis unfolding suffix_ok_iff by blast
qed

text \<open>What the lazy group returns.\<close>

lemma lazy_group_Some:
  "lazy_group pre s = Some g \<Longrightarrow>
   \<exists>p r. s = p @ r \<and> g = pre @ p \<and> suffix_ok r \<and> CHR 0x0A \<notin> set p \<and>
         (\<forall>p' r'. s = p' @ r' \<and> length p' < length p \<longrightarrow> \<not> suffix_ok r')"
proof (induction pre s rule: lazy_group.induct)
  case (1 pre)
  then show ?case by (auto split: if_splits)
next
  case (2 pre c cs)
  show ?case
  proof (cases "suffix_ok (c # cs)")
    case True
    with 2 have "g = pre" by simp
    with True show ?thesis by (intro exI[of _ "[]"] exI[of _ "c # cs"]) simp
  next
    case False
    with 2 have nl: "c \<noteq> CHR 0x0A" and rec: "lazy_group (pre @ [c]) cs = Some g"
      by (auto split: if_splits)
    from 2(1)[OF False nl rec] obtain p r where pr: "cs = p @ r" "g = (pre @ [c]) @ p" "suffix_ok r"
      "CHR 0x0A \<notin> set p" and mn: "\<forall>p' r'. cs = p' @ r' \<and> length p' < length p \<longrightarrow> \<not> suffix_ok r'"
      by blast
    have "\<forall>p' r'. c # cs = p' @ r' \<and> length p' < length (c # p) \<longrightarrow> \<not> suffix_ok r'"
    proof (intro allI impI)
      fix p' r' assume a: "c # cs = p' @ r' \<and> length p' < length (c # p)"
      show "\<not> suffix_ok r'"
      proof (cases p')
        case Nil
        with a False show ?thesis by simp
      next
        case (Cons x q)
        with a have "cs = q @ r'" "length q < length p" by auto
        with mn show ?thesis by blast
      qed
    qed
    with pr nl show ?thesis by (intro exI[of _ "c # p"] exI[of _ r]) simp
  qed
qed

lemma lazy_group_None:
  "lazy_group pre s = None \<Longrightarrow> s = p @ r \<Longrightarrow> CHR 0x0A \<notin> set p \<Longrightarrow> \<not> suffix_ok r"
proof (induction pre s arbitrary: p rule: lazy_group.induct)
  case (1 pre)
  then show ?case by (auto split: if_splits)
next
  case (2 pre c cs)
  from 2(2) have ns: "\<not> suffix_ok (c # cs)" by (auto split: if_splits)
  show ?case
  proof (cases p)
    case Nil
    with 2(3) ns show ?thesis by simp
  next
    case (Cons x q)
    with 2(3,4) have c: "c \<noteq> CHR 0x0A" "cs = q @ r" "CHR 0x0A \<notin> set q" by auto
    with 2(2) ns have "lazy_group (pre @ [c]) cs = None" by (auto split: if_splits)
    from 2(1)[OF ns c(1) this c(2,3)] show ?thesis .
  qed
qed

lemma lazy_group_none_intro:
  "(\<And>p r. s = p @ r \<Longrightarrow> \<not> suffix_ok r) \<Longrightarrow> lazy_group pre s = None"
proof (induction pre s rule: lazy_group.induct)
  case (1 pre)
  from 1[of "[]" "[]"] show ?case by simp
next
  case (2 pre c cs)
  from 2(2)[of "[]" "c # cs"] have ns: "\<not> suffix_ok (c # cs)" by simp
  have "lazy_group (pre @ [c]) cs = None" if "c \<noteq> CHR 0x0A"
  proof (rule 2(1)[OF ns that])
    fix p r assume "cs = p @ r"
    then have "c # cs = (c # p) @ r" by simp
    then show "\<not> suffix_ok r" by (rule 2(2))
  qed
  with ns show ?case by simp
qed

subsection \<open>\<open>normalize\<close>\<close>

lemma splitext_cases:
  obtains (ext) b e where "has_ext p b e" "splitext p = (b, CHR ''.'' # e)"
  | (noext) "\<not> (\<exists>b e. has_ext p b e)" "splitext p = (p, [])"
  using splitext_ext splitext_noext by blast

lemma splitext_append: "splitext p = (b, e) \<Longrightarrow> p = b @ e"
  by (cases p rule: splitext_cases) (auto simp: has_ext_def)

lemma normalize_eq:
  "normalize name =
     (case lazy_group [] (fst (splitext name)) of
        Some g \<Rightarrow> g @ snd (splitext name)
      | None \<Rightarrow> name)"
  using splitext_append[of name]
  by (auto simp: normalize_def re_match_def split: prod.splits option.splits)

lemma normalize_shape_aux:
  "\<exists>p. prefix p (fst (splitext name)) \<and> normalize name = p @ snd (splitext name)"
proof (cases "lazy_group [] (fst (splitext name))")
  case None
  then have "normalize name = fst (splitext name) @ snd (splitext name)"
    using splitext_append[of name] by (simp add: normalize_eq prod_eq_iff)
  then show ?thesis by blast
next
  case (Some g)
  then have "prefix g (fst (splitext name))" by (auto dest!: lazy_group_Some)
  then show ?thesis using Some by (auto simp: normalize_eq)
qed

lemma group_no_rematch:
  assumes "lazy_group [] b = Some g"
  shows "lazy_group [] g = None"
proof (rule lazy_group_none_intro)
  fix p' r' assume g: "g = p' @ r'"
  from lazy_group_Some[OF assms] obtain r where b: "b = g @ r" and r: "suffix_ok r"
    and nl: "CHR 0x0A \<notin> set g"
    and mn: "\<forall>p' r'. b = p' @ r' \<and> length p' < length g \<longrightarrow> \<not> suffix_ok r'"
    by auto
  show "\<not> suffix_ok r'"
  proof
    assume ok: "suffix_ok r'"
    then have "r' \<noteq> []" by (auto dest: suffix_ok_nonempty)
    then have "length p' < length g" by (simp add: g)
    moreover have "b = p' @ (r' @ r)" by (simp add: b g)
    moreover have "suffix_ok (r' @ r)" using ok nl r by (intro suffix_ok_extend) (auto simp: g)
    ultimately show False using mn by blast
  qed
qed

text \<open>
  What the first pass returns when the pattern matched, the captured group followed by
  the extension, is returned unchanged by a second pass.
\<close>

lemma stripped_name_is_fixed:
  assumes Some: "lazy_group [] (fst (splitext x)) = Some g"
    and dash: "CHR ''-'' \<notin> set (snd (splitext x))"
  shows "normalize (g @ snd (splitext x)) = g @ snd (splitext x)"
proof -
  from lazy_group_Some[OF Some] obtain r where b: "fst (splitext x) = g @ r" and r: "suffix_ok r"
    by auto
  have gn: "lazy_group [] g = None" using Some by (rule group_no_rematch)
  show ?thesis
  proof (cases x rule: splitext_cases)
    case (ext b e)
    then have bg: "b = g @ r" and nx': "snd (splitext x) = CHR ''.'' # e" and de: "CHR ''-'' \<notin> set e"
      and e: "CHR ''.'' \<notin> set e" "CHR ''/'' \<notin> set e"
      using b dash by (auto simp: has_ext_def)
    show ?thesis
    proof (cases "stem_ok g")
      case True
      with e have "has_ext (g @ CHR ''.'' # e) g e" by (simp add: has_ext_def)
      then have "splitext (g @ CHR ''.'' # e) = (g, CHR ''.'' # e)" by (rule splitext_ext)
      then have "normalize (g @ CHR ''.'' # e) = g @ CHR ''.'' # e" using gn by (simp add: normalize_eq)
      then show ?thesis by (simp only: nx')
    next
      case False
      have "\<not> (\<exists>b' e'. has_ext (g @ CHR ''.'' # e) b' e')"
      proof
        assume "\<exists>b' e'. has_ext (g @ CHR ''.'' # e) b' e'"
        then obtain b' e' where h: "has_ext (g @ CHR ''.'' # e) b' e'" by blast
        then have "g @ CHR ''.'' # e = b' @ CHR ''.'' # e'" "CHR ''.'' \<notin> set e'"
          by (auto simp: has_ext_def)
        with e(1) have "g = b'" using last_split_unique by blast
        with h False show False by (simp add: has_ext_def)
      qed
      then have sp: "splitext (g @ CHR ''.'' # e) = (g @ CHR ''.'' # e, [])" by (rule splitext_noext)
      have "lazy_group [] (g @ CHR ''.'' # e) = None"
      proof (rule lazy_group_none_intro)
        fix p' r' assume eq: "g @ CHR ''.'' # e = p' @ r'"
        show "\<not> suffix_ok r'"
        proof
          assume ok: "suffix_ok r'"
          then have nd: "CHR ''.'' \<notin> set r'" by (simp add: suffix_ok_no_dot)
          from ok obtain t where t: "r' = CHR ''-'' # t" by (auto dest: suffix_ok_nonempty)
          from eq consider us where "g = p' @ us" "us @ CHR ''.'' # e = r'"
            | us where "g @ us = p'" "CHR ''.'' # e = us @ r'"
            by (auto simp: append_eq_append_conv2)
          then show False
          proof cases
            case 1
            with nd show ?thesis by auto
          next
            case 2
            show ?thesis
            proof (cases us)
              case Nil
              with 2 nd show ?thesis by auto
            next
              case (Cons u us')
              with 2 have "e = us' @ r'" by simp
              with t de show ?thesis by simp
            qed
          qed
        qed
      qed
      then have "normalize (g @ CHR ''.'' # e) = g @ CHR ''.'' # e" using sp by (simp add: normalize_eq)
      then show ?thesis by (simp only: nx')
    qed
  next
    case noext
    then have bg: "x = g @ r" and nx': "snd (splitext x) = []" using b by auto
    have "\<not> (\<exists>b' e'. has_ext g b' e')"
    proof
      assume "\<exists>b' e'. has_ext g b' e'"
      then obtain b' e' where "has_ext g b' e'" by blast
      then have "has_ext x b' (e' @ r)"
        using suffix_ok_no_dot[OF r] by (auto simp: has_ext_def bg)
      with noext(1) show False by blast
    qed
    then have "splitext g = (g, [])" by (rule splitext_noext)
    then have "normalize g = g" using gn by (simp add: normalize_eq)
    then show ?thesis by (simp only: nx' append_Nil2)
  qed
qed

lemma normalize_cases:
  obtains (unchanged) "normalize x = x"
  | (stripped) g where "lazy_group [] (fst (splitext x)) = Some g"
      "normalize x = g @ snd (splitext x)"
  by (cases "lazy_group [] (fst (splitext x))") (auto simp: normalize_eq)

lemma ends_js_ext:
  assumes "suffix ''.js'' name \<or> suffix ''.css'' name"
  shows "CHR ''-'' \<notin> set (snd (splitext name))"
proof (cases name rule: splitext_cases)
  case (ext b e)
  then have n: "name = b @ CHR ''.'' # e" and e: "CHR ''.'' \<notin> set e" by (auto simp: has_ext_def)
  from assms obtain q ext' where q: "name = q @ CHR ''.'' # ext'" and x: "ext' = ''js'' \<or> ext' = ''css''"
    by (auto simp: suffix_def)
  then have "CHR ''.'' \<notin> set ext'" by auto
  with n e q have "e = ext'" using last_split_unique by metis
  with x ext(2) show ?thesis by auto
next
  case noext
  then show ?thesis by simp
qed


subsection \<open>Claims about the normalizer\<close>

text \<open>
  C7: the normalizer maps \<^verbatim>\<open>app-a1b2c3d4e5.js\<close> to \<^verbatim>\<open>app.js\<close>, leaves \<^verbatim>\<open>vendor.js\<close>, which
  has no hash suffix, unchanged, and maps \<^verbatim>\<open>chunk-A-f9e8d7c6b5a4.css\<close> to \<^verbatim>\<open>chunk.css\<close>.
\<close>

theorem normalize_examples:
  "normalize ''app-a1b2c3d4e5.js'' = ''app.js'' \<and>
   normalize ''vendor.js'' = ''vendor.js'' \<and>
   normalize ''chunk-A-f9e8d7c6b5a4.css'' = ''chunk.css''"
  by code_simp

text \<open>
  C10: for every input filename, with \<open>(stem, ext) = splitext name\<close>, the stem and the
  extension make up the name, the normalizer's output is a prefix of the stem followed by
  the extension, so it ends with the input's extension, and it is never longer than the
  input.
\<close>

theorem normalize_prefix_of_stem_then_ext:
  "fst (splitext name) @ snd (splitext name) = name \<and>
   (\<exists>p. prefix p (fst (splitext name)) \<and> normalize name = p @ snd (splitext name)) \<and>
   suffix (snd (splitext name)) (normalize name) \<and>
   length (normalize name) \<le> length name"
proof -
  obtain p where p: "prefix p (fst (splitext name))" "normalize name = p @ snd (splitext name)"
    using normalize_shape_aux by blast
  have n: "fst (splitext name) @ snd (splitext name) = name"
    using splitext_append[of name] by (simp add: prod_eq_iff)
  have "length p \<le> length (fst (splitext name))" using p(1) by (rule prefix_length_le)
  then have "length (normalize name) \<le> length (fst (splitext name) @ snd (splitext name))"
    by (simp add: p(2))
  then have "length (normalize name) \<le> length name" by (simp only: n)
  moreover have "suffix (snd (splitext name)) (normalize name)"
    unfolding p(2) by (rule suffix_appendI) simp
  ultimately show ?thesis using n p by blast
qed

text \<open>
  C3, as stated, fails: \<^verbatim>\<open>-abcdef.x-abcdef\<close> normalizes to \<^verbatim>\<open>.x-abcdef\<close>, whose only dot is
  a leading dot, so the second \<open>splitext\<close> finds no extension and the second match strips
  \<^verbatim>\<open>-abcdef\<close> from what was the extension.
\<close>

theorem normalize_not_idempotent:
  "normalize ''-abcdef.x-abcdef'' = ''.x-abcdef'' \<and>
   normalize (normalize ''-abcdef.x-abcdef'') = ''.x'' \<and>
   normalize (normalize ''-abcdef.x-abcdef'') \<noteq> normalize ''-abcdef.x-abcdef''"
  by code_simp

text \<open>
  C3, amended: for every filename whose extension (as split by \<open>splitext\<close>) contains no
  dash, normalizing the normalized name returns it unchanged. Every name ending in
  \<^verbatim>\<open>.js\<close> or \<^verbatim>\<open>.css\<close>, the only names the baseline builder normalizes, is such a name
  (\<open>ends_js_ext\<close>).
\<close>

theorem normalize_idempotent_dashless_ext:
  assumes "CHR ''-'' \<notin> set (snd (splitext x))"
  shows "normalize (normalize x) = normalize x"
proof (cases x rule: normalize_cases)
  case unchanged
  then show ?thesis by simp
next
  case (stripped g)
  from stripped(1) assms have "normalize (g @ snd (splitext x)) = g @ snd (splitext x)"
    by (rule stripped_name_is_fixed)
  then show ?thesis by (simp only: stripped(2))
qed

theorem normalize_idempotent_dashless_ext_witness:
  "CHR ''-'' \<notin> set (snd (splitext ''app-a1b2c3d4e5.js'')) \<and>
   normalize (normalize ''app-a1b2c3d4e5.js'') = normalize ''app-a1b2c3d4e5.js''"
proof -
  have h: "CHR ''-'' \<notin> set (snd (splitext ''app-a1b2c3d4e5.js''))" by code_simp
  show ?thesis by (rule conjI [OF h normalize_idempotent_dashless_ext [OF h]])
qed

text \<open>The names the baseline builder normalizes.\<close>

lemma normalize_idempotent_tracked:
  assumes "suffix ''.js'' name \<or> suffix ''.css'' name"
  shows "normalize (normalize name) = normalize name"
proof (cases name rule: normalize_cases)
  case unchanged
  then show ?thesis by simp
next
  case (stripped g)
  from assms have "CHR ''-'' \<notin> set (snd (splitext name))" by (rule ends_js_ext)
  with stripped(1) have "normalize (g @ snd (splitext name)) = g @ snd (splitext name)"
    by (rule stripped_name_is_fixed)
  then show ?thesis by (simp only: stripped(2))
qed

section \<open>Properties of the baseline builder\<close>

lemma update_sum:
  "sum_list (map snd (AList.update k (chunks_get al k 0 + s) al)) = sum_list (map snd al) + s"
proof (induction al)
  case Nil
  then show ?case by (simp add: chunks_get_def)
next
  case (Cons a al)
  show ?case
  proof (cases "fst a = k")
    case True
    then show ?thesis by (cases a) (simp add: chunks_get_def)
  next
    case False
    then have "chunks_get (a # al) k 0 = chunks_get al k 0" by (cases a) (simp add: chunks_get_def)
    with False Cons show ?thesis by (cases a) simp
  qed
qed

lemma counted_size: "counted w name \<Longrightarrow> getsize w (join ASSETS_DIR name) = Some (asset_size w name)"
  by (auto simp: counted_def isfile_def getsize_def asset_size_def)

lemma scan_step:
  "scan w (name # names) acc =
     (if counted w name
      then scan w names (AList.update (normalize name) (chunks_get acc (normalize name) 0 + asset_size w name) acc)
      else scan w names acc)"
  using counted_size[of w name] by (auto simp: Let_def counted_def)

lemma scan_returns: "\<exists>cs. scan w names acc = Some cs"
proof (induction names arbitrary: acc)
  case Nil
  then show ?case by simp
next
  case (Cons name names)
  then show ?case by (simp only: scan_step split: if_splits) simp
qed

lemma scan_sum:
  "scan w names acc = Some cs \<Longrightarrow>
   sum_list (map snd cs) = sum_list (map snd acc) + sum_list (map (asset_size w) (filter (counted w) names))"
proof (induction names arbitrary: acc)
  case Nil
  then show ?case by simp
next
  case (Cons name names)
  show ?case
  proof (cases "counted w name")
    case True
    with Cons.prems have "scan w names (AList.update (normalize name) (chunks_get acc (normalize name) 0 + asset_size w name) acc) = Some cs"
      by (simp only: scan_step if_True)
    from Cons.IH[OF this] True show ?thesis by (simp add: update_sum)
  next
    case False
    with Cons.prems have "scan w names acc = Some cs" by (simp only: scan_step if_False)
    from Cons.IH[OF this] False show ?thesis by simp
  qed
qed

lemma scan_distinct:
  "scan w names acc = Some cs \<Longrightarrow> distinct (map fst acc) \<Longrightarrow> distinct (map fst cs)"
proof (induction names arbitrary: acc)
  case Nil
  then show ?case by simp
next
  case (Cons name names)
  show ?case
  proof (cases "counted w name")
    case True
    with Cons.prems(1) have "scan w names (AList.update (normalize name) (chunks_get acc (normalize name) 0 + asset_size w name) acc) = Some cs"
      by (simp only: scan_step if_True)
    from Cons.IH[OF this] Cons.prems(2) show ?thesis by (simp add: distinct_update)
  next
    case False
    with Cons.prems(1) have "scan w names acc = Some cs" by (simp only: scan_step if_False)
    from Cons.IH[OF this] Cons.prems(2) show ?thesis by simp
  qed
qed

lemma scan_lookup:
  "scan w names acc = Some cs \<Longrightarrow>
   map_of cs k =
     (if filter (\<lambda>n. counted w n \<and> normalize n = k) names = [] then map_of acc k
      else Some (chunks_get acc k 0 +
                 sum_list (map (asset_size w) (filter (\<lambda>n. counted w n \<and> normalize n = k) names))))"
proof (induction names arbitrary: acc)
  case Nil
  then show ?case by simp
next
  case (Cons name names)
  let ?hit = "\<lambda>n. counted w n \<and> normalize n = k"
  show ?case
  proof (cases "counted w name")
    case True
    let ?acc = "AList.update (normalize name) (chunks_get acc (normalize name) 0 + asset_size w name) acc"
    from True Cons.prems have "scan w names ?acc = Some cs" by (simp only: scan_step if_True)
    note ih = Cons.IH[OF this]
    let ?rest = "filter ?hit names"
    show ?thesis
    proof (cases "normalize name = k")
      case eq: True
      then have m: "map_of ?acc k = Some (chunks_get acc k 0 + asset_size w name)"
        by (simp add: update_conv')
      then have g: "chunks_get ?acc k 0 = chunks_get acc k 0 + asset_size w name"
        by (simp add: chunks_get_def)
      have f: "filter ?hit (name # names) = name # ?rest" using True eq by simp
      have "map_of cs k =
              (if ?rest = [] then map_of ?acc k
               else Some (chunks_get ?acc k 0 + sum_list (map (asset_size w) ?rest)))"
        by (rule ih)
      also have "\<dots> = Some (chunks_get acc k 0 + sum_list (map (asset_size w) (name # ?rest)))"
        by (simp only: m g) simp
      finally show ?thesis by (simp only: f) simp
    next
      case neq: False
      then have m: "map_of ?acc k = map_of acc k" by (simp add: update_conv')
      then have g: "chunks_get ?acc k 0 = chunks_get acc k 0" by (simp add: chunks_get_def)
      have f: "filter ?hit (name # names) = ?rest" using neq by simp
      have "map_of cs k =
              (if ?rest = [] then map_of ?acc k
               else Some (chunks_get ?acc k 0 + sum_list (map (asset_size w) ?rest)))"
        by (rule ih)
      then show ?thesis by (simp only: f m g)
    qed
  next
    case False
    with Cons.prems have "scan w names acc = Some cs" by (simp only: scan_step if_False)
    from Cons.IH[OF this] False show ?thesis by simp
  qed
qed

lemma alist_sum_dom:
  assumes "distinct (map fst al)"
  shows "sum_list (map snd al) = (\<Sum>k\<in>dom (map_of al). the (map_of al k))"
proof -
  have "\<forall>p\<in>set al. the (map_of al (fst p)) = snd p" using assms by auto
  then have "map snd al = map (\<lambda>k. the (map_of al k)) (map fst al)"
    by (simp add: comp_def)
  then have "sum_list (map snd al) = sum_list (map (\<lambda>k. the (map_of al k)) (map fst al))"
    by (rule arg_cong)
  also have "\<dots> = (\<Sum>k\<in>set (map fst al). the (map_of al k))"
    using assms by (rule sum_list_distinct_conv_sum_set)
  finally show ?thesis by (simp add: dom_map_of_conv_image_fst)
qed

lemma snapshot_Some:
  "dirs w ASSETS_DIR = Some listing \<Longrightarrow>
   \<exists>cs. scan w listing [] = Some cs \<and>
        snapshot now w = Some \<lparr>generatedAt = now, chunks = cs, total = sum_list (map snd cs)\<rparr>"
  using scan_returns[of w listing "[]"] by (auto simp: snapshot_def)

lemma main_snapshot:
  "main dump now w =
     (case snapshot now w of
        None \<Rightarrow> (Some 1, w\<lparr>stdout := stdout w @ [AssetsNotFound]\<rparr>)
      | Some b \<Rightarrow>
          (Some 0, w\<lparr>files := (files w)(BASELINE_PATH \<mapsto> dump b),
                     stdout := stdout w @ [BaselineGenerated, TotalChunks (length (chunks b)), TotalSize (total b)]\<rparr>))"
proof (cases "dirs w ASSETS_DIR")
  case None
  then show ?thesis by (simp add: main_def snapshot_def isdir_def)
next
  case (Some listing)
  from snapshot_Some[OF this, of now] obtain cs where "scan w listing [] = Some cs"
    "snapshot now w = Some \<lparr>generatedAt = now, chunks = cs, total = sum_list (map snd cs)\<rparr>" by blast
  with Some show ?thesis by (simp add: main_def isdir_def Let_def)
qed

subsection \<open>Claims about the baseline builder\<close>

text \<open>
  C4: when the assets directory lists exactly two counted files \<open>n1\<close> and \<open>n2\<close> that
  normalize to the identity \<open>k\<close>, \<^verbatim>\<open>main\<close> returns 0 and writes the snapshot, and the
  snapshot maps \<open>k\<close> to the sum of their byte sizes. The witness is the example of the
  claim: \<^verbatim>\<open>foo-111111.js\<close> of 100 bytes and \<^verbatim>\<open>foo-222222.js\<close> of 50 bytes give
  \<^verbatim>\<open>foo.js\<close> the size 150.
\<close>

theorem same_identity_sizes_summed:
  assumes "dirs w ASSETS_DIR = Some listing"
    and "filter (\<lambda>n. counted w n \<and> normalize n = k) listing = [n1, n2]"
  shows "\<exists>b. snapshot now w = Some b \<and>
             fst (main dump now w) = Some 0 \<and>
             files (snd (main dump now w)) BASELINE_PATH = Some (dump b) \<and>
             map_of (chunks b) k = Some (asset_size w n1 + asset_size w n2)"
proof -
  from snapshot_Some[OF assms(1), of now] obtain cs where cs: "scan w listing [] = Some cs"
    and b: "snapshot now w = Some \<lparr>generatedAt = now, chunks = cs, total = sum_list (map snd cs)\<rparr>"
    by blast
  have "map_of cs k = Some (asset_size w n1 + asset_size w n2)"
    using scan_lookup[OF cs, of k] by (simp add: assms(2) chunks_get_def)
  then show ?thesis using b by (simp add: main_snapshot)
qed

theorem same_identity_sizes_summed_witness:
  "\<exists>b. snapshot sample_now two_foo_world = Some b \<and>
       fst (main sample_dump sample_now two_foo_world) = Some 0 \<and>
       files (snd (main sample_dump sample_now two_foo_world)) BASELINE_PATH
         = Some (sample_dump b) \<and>
       map_of (chunks b) ''foo.js'' = Some 150"
proof -
  have d: "dirs two_foo_world ASSETS_DIR = Some [''foo-111111.js'', ''foo-222222.js'']"
    by (simp add: two_foo_world_def)
  have f: "filter (\<lambda>n. counted two_foo_world n \<and> normalize n = ''foo.js'')
             [''foo-111111.js'', ''foo-222222.js''] = [''foo-111111.js'', ''foo-222222.js'']"
    by code_simp
  have s: "asset_size two_foo_world ''foo-111111.js'' + asset_size two_foo_world ''foo-222222.js'' = 150"
    by code_simp
  show ?thesis
    using same_identity_sizes_summed [OF d f, of sample_now sample_dump]
    by (simp only: s)
qed

text \<open>
  C5: whenever \<^verbatim>\<open>main\<close> returns 0, the file it wrote holds the snapshot, and the
  snapshot's \<open>total\<close> is the sum of the byte counts of its \<open>chunks\<close>: as the sum over the
  items, whose keys are distinct, and as the sum over the keys of the mapping.
\<close>

theorem baseline_total_is_sum_of_chunks:
  assumes "main dump now w = (Some 0, w')"
  shows "\<exists>b. snapshot now w = Some b \<and>
             files w' BASELINE_PATH = Some (dump b) \<and>
             total b = sum_list (map snd (chunks b)) \<and>
             distinct (map fst (chunks b)) \<and>
             total b = (\<Sum>k\<in>dom (map_of (chunks b)). the (map_of (chunks b) k))"
proof (cases "snapshot now w")
  case None
  with assms show ?thesis by (simp add: main_snapshot)
next
  case (Some b)
  then obtain listing cs where cs: "scan w listing [] = Some cs"
    and b: "b = \<lparr>generatedAt = now, chunks = cs, total = sum_list (map snd cs)\<rparr>"
    by (auto simp: snapshot_def split: option.splits)
  have d: "distinct (map fst cs)" using scan_distinct[OF cs] by simp
  have "files w' BASELINE_PATH = Some (dump b)" using assms Some by (auto simp: main_snapshot)
  then show ?thesis using Some d alist_sum_dom[OF d] by (simp add: b)
qed

theorem baseline_total_is_sum_of_chunks_witness:
  "\<exists>b. snapshot sample_now two_foo_world = Some b \<and>
       files (snd (main sample_dump sample_now two_foo_world)) BASELINE_PATH
         = Some (sample_dump b) \<and>
       total b = sum_list (map snd (chunks b)) \<and>
       distinct (map fst (chunks b)) \<and>
       total b = (\<Sum>k\<in>dom (map_of (chunks b)). the (map_of (chunks b) k))"
proof -
  have "fst (main sample_dump sample_now two_foo_world) = Some 0"
    by code_simp
  then have "main sample_dump sample_now two_foo_world
               = (Some 0, snd (main sample_dump sample_now two_foo_world))"
    by (simp add: prod_eq_iff)
  then show ?thesis by (rule baseline_total_is_sum_of_chunks)
qed

text \<open>The total is also the sum of the sizes of all counted files of the listing.\<close>

lemma snapshot_total_all_assets:
  "snapshot now w = Some b \<Longrightarrow> dirs w ASSETS_DIR = Some listing \<Longrightarrow>
   total b = sum_list (map (asset_size w) (filter (counted w) listing))"
  using scan_sum[of w listing "[]"] by (auto simp: snapshot_def)

text \<open>
  C6: when the assets directory does not exist, \<^verbatim>\<open>main\<close> returns 1, which becomes the
  exit status, after printing one line, and leaves every file and directory as it was:
  no baseline file is created or modified.
\<close>

theorem missing_assets_exit_one_no_write:
  assumes "\<not> isdir w ASSETS_DIR"
  shows "main dump now w = (Some 1, w\<lparr>stdout := stdout w @ [AssetsNotFound]\<rparr>) \<and>
         files (snd (main dump now w)) = files w \<and>
         dirs (snd (main dump now w)) = dirs w"
  using assms by (simp add: main_def)

theorem missing_assets_exit_one_no_write_witness:
  "main sample_dump sample_now unbuilt_world
     = (Some 1, unbuilt_world\<lparr>stdout := stdout unbuilt_world @ [AssetsNotFound]\<rparr>) \<and>
   files (snd (main sample_dump sample_now unbuilt_world)) = files unbuilt_world \<and>
   dirs (snd (main sample_dump sample_now unbuilt_world)) = dirs unbuilt_world"
proof -
  have h: "\<not> isdir unbuilt_world ASSETS_DIR" by (simp add: isdir_def unbuilt_world_def)
  show ?thesis by (rule missing_assets_exit_one_no_write [OF h])
qed

text \<open>\<^verbatim>\<open>main\<close> always returns, with 0 or 1.\<close>

lemma main_exit_status: "fst (main dump now w) = (if isdir w ASSETS_DIR then Some 0 else Some 1)"
proof (cases "dirs w ASSETS_DIR")
  case None
  then show ?thesis by (simp add: main_snapshot snapshot_def isdir_def)
next
  case (Some listing)
  from snapshot_Some[OF this, of now] Some show ?thesis
    by (auto simp: main_snapshot isdir_def)
qed

text \<open>Every key of a snapshot is left unchanged by the normalizer.\<close>

lemma snapshot_keys_normalized:
  assumes "snapshot now w = Some b" "(k, v) \<in> set (chunks b)"
  shows "normalize k = k"
proof -
  from assms(1) obtain listing where cs: "scan w listing [] = Some (chunks b)"
    by (auto simp: snapshot_def split: option.splits)
  from assms(2) have "map_of (chunks b) k \<noteq> None"
    by (metis map_of_eq_None_iff fst_conv image_eqI)
  with scan_lookup[OF cs, of k] have "filter (\<lambda>n. counted w n \<and> normalize n = k) listing \<noteq> []"
    by (auto split: if_splits)
  then obtain n where n: "counted w n" "normalize n = k"
    by (metis (mono_tags, lifting) filter_False)
  from n(1) have "suffix ''.js'' n \<or> suffix ''.css'' n" by (simp add: counted_def endswith_def)
  then have "normalize (normalize n) = normalize n" by (rule normalize_idempotent_tracked)
  then show ?thesis by (simp add: n(2))
qed

section \<open>Properties of the report summarizer\<close>

lemma exn_bind_Inr: "exn_bind m f = Inr y \<longleftrightarrow> (\<exists>v. m = Inr v \<and> f v = Inr y)"
  by (cases m) (auto simp: exn_bind_def)

lemma exn_bind_Inl: "exn_bind m f = Inl e \<longleftrightarrow> m = Inl e \<or> (\<exists>v. m = Inr v \<and> f v = Inl e)"
  by (cases m) (auto simp: exn_bind_def)

lemma num_truediv_pos: "0 < num_val b \<Longrightarrow> num_truediv rnd a b \<noteq> Inl ZeroDivisionError"
  by (auto simp: num_truediv_def split: pynum.splits prod.splits)

lemma total_delta_pct_no_zerodiv: "total_delta_pct rnd d b \<noteq> Inl ZeroDivisionError"
proof (cases "to_num b")
  case None
  then show ?thesis by (simp add: total_delta_pct_def py_gt0_def exn_bind_def)
next
  case (Some y)
  then show ?thesis
    using num_truediv_pos[of y rnd d]
    by (simp add: total_delta_pct_def py_gt0_def exn_bind_def py_truediv_def)
qed

lemma dict_get_no_zerodiv: "dict_get obj k d \<noteq> Inl ZeroDivisionError"
  by (simp add: dict_get_def split: json.splits)

lemma py_sub_no_zerodiv: "py_sub rnd a b \<noteq> Inl ZeroDivisionError"
  by (simp add: py_sub_def split: option.splits)

lemma totals_no_zerodiv: "totals rnd report \<noteq> Inl ZeroDivisionError"
  by (auto simp: totals_def exn_bind_Inl dict_get_no_zerodiv py_sub_no_zerodiv total_delta_pct_no_zerodiv)


lemma emit_map_Inr: "emit (map Inr ls) = (ls, None)"
  by (induction ls) auto

lemma collect_Inr:
  "collect items = Inr fl \<Longrightarrow> fl = filter (\<lambda>x. shown_status (snd x)) items"
proof (induction items arbitrary: fl rule: collect.induct)
  case 1
  then show ?case by simp
next
  case (2 name chunk rest)
  from 2(2) obtain st fl' where st: "dict_get chunk ''status'' JNull = Inr st"
    and r: "collect rest = Inr fl'"
    and fl: "fl = (if st \<in> set [JStr ''fail'', JStr ''warn''] then (name, chunk) # fl' else fl')"
    by (auto simp: exn_bind_Inr)
  have "fl' = filter (\<lambda>x. shown_status (snd x)) rest" using 2(1)[OF r] .
  moreover have "shown_status chunk \<longleftrightarrow> st \<in> set [JStr ''fail'', JStr ''warn'']"
    by (auto simp: shown_status_def st)
  ultimately show ?case by (simp add: fl)
qed

lemma keyed_Inr:
  "keyed key xs = Inr ks \<Longrightarrow> map snd ks = xs \<and> (\<forall>p\<in>set ks. key (snd p) = Inr (fst p))"
proof (induction xs arbitrary: ks)
  case Nil
  then show ?case by simp
next
  case (Cons x xs)
  from Cons.prems obtain k ks' where k: "key x = Inr k" and r: "keyed key xs = Inr ks'"
    and ks: "ks = (k, x) # ks'"
    by (auto simp: exn_bind_Inr)
  from Cons.IH[OF r] k show ?case by (simp add: ks)
qed

lemma sort_reverse_Inr:
  assumes "sort_reverse key xs = Inr ys"
  shows "mset ys = mset xs"
    and "sorted_wrt (\<lambda>x y. (case key x of Inr k \<Rightarrow> num_val k | Inl e \<Rightarrow> 0)
                        \<ge> (case key y of Inr k \<Rightarrow> num_val k | Inl e \<Rightarrow> 0)) ys"
proof -
  let ?f = "\<lambda>p :: pynum \<times> 'a. - num_val (fst p)"
  let ?kv = "\<lambda>x. (case key x of Inr k \<Rightarrow> num_val k | Inl e \<Rightarrow> 0)"
  from assms obtain ks where ks: "keyed key xs = Inr ks" and ys: "ys = map snd (sort_key ?f ks)"
    by (auto simp: sort_reverse_def exn_bind_Inr)
  from keyed_Inr[OF ks] have xs: "map snd ks = xs" and key: "\<forall>p\<in>set ks. key (snd p) = Inr (fst p)"
    by auto
  have "mset ys = image_mset snd (mset (sort_key ?f ks))" by (simp add: ys)
  also have "\<dots> = image_mset snd (mset ks)" by simp
  also have "\<dots> = mset (map snd ks)" by simp
  finally show "mset ys = mset xs" by (simp add: xs)
  have "\<forall>p\<in>set (sort_key ?f ks). ?f p = - ?kv (snd p)" using key by auto
  then have "map ?f (sort_key ?f ks) = map (\<lambda>x. - ?kv x) ys" by (simp add: ys)
  moreover have "sorted (map ?f (sort_key ?f ks))" by (rule sorted_sort_key)
  ultimately have "sorted (map (\<lambda>x. - ?kv x) ys)" by simp
  then show "sorted_wrt (\<lambda>x y. ?kv x \<ge> ?kv y) ys" by (simp add: sorted_map)
qed



subsection \<open>Reports of the expected shape raise no exception\<close>

lemma numeric_get:
  "numeric_or_absent kvs k \<Longrightarrow> \<exists>v n. dict_get (JObj kvs) k (JInt 0) = Inr v \<and> to_num v = Some n"
  by (auto simp: numeric_or_absent_def dict_get_def to_num_def split: option.splits)

lemma total_get:
  "well_formed_total kvs k \<Longrightarrow>
   \<exists>t. dict_get (JObj kvs) k (JObj []) = Inr (JObj t) \<and> numeric_or_absent t ''totalBytes''"
  by (auto simp: well_formed_total_def dict_get_def numeric_or_absent_def split: option.splits json.splits)

lemma py_sub_num: "to_num a = Some x \<Longrightarrow> to_num b = Some y \<Longrightarrow> py_sub rnd a b = Inr (num_sub rnd x y)"
  by (simp add: py_sub_def)

lemma fmt_num_num: "to_num v = Some n \<Longrightarrow> fmt_num v = Inr n"
  by (simp add: fmt_num_def)

lemma total_delta_pct_num: "to_num b = Some y \<Longrightarrow> \<exists>p. total_delta_pct rnd d b = Inr p"
  by (auto simp: total_delta_pct_def py_gt0_def exn_bind_def py_truediv_def num_truediv_def
           split: pynum.splits prod.splits)

lemma totals_wf:
  assumes "well_formed_report r"
  shows "\<exists>tb tc d p nb nc. totals rnd r = Inr (tb, tc, d, p) \<and> to_num tb = Some nb \<and> to_num tc = Some nc"
proof -
  from assms obtain kvs where r: "r = JObj kvs" and b: "well_formed_total kvs ''baseline''"
    and c: "well_formed_total kvs ''current''"
    by (auto simp: well_formed_report_def split: json.splits)
  from total_get[OF b] obtain bt where bt: "dict_get r ''baseline'' (JObj []) = Inr (JObj bt)"
    "numeric_or_absent bt ''totalBytes''" unfolding r by blast
  from total_get[OF c] obtain ct where ct: "dict_get r ''current'' (JObj []) = Inr (JObj ct)"
    "numeric_or_absent ct ''totalBytes''" unfolding r by blast
  from numeric_get[OF bt(2)] obtain tb nb where tb: "dict_get (JObj bt) ''totalBytes'' (JInt 0) = Inr tb"
    "to_num tb = Some nb" by blast
  from numeric_get[OF ct(2)] obtain tc nc where tc: "dict_get (JObj ct) ''totalBytes'' (JInt 0) = Inr tc"
    "to_num tc = Some nc" by blast
  from total_delta_pct_num[OF tb(2)] obtain p where p: "total_delta_pct rnd (num_sub rnd nc nb) tb = Inr p"
    by blast
  have "totals rnd r = Inr (tb, tc, num_sub rnd nc nb, p)"
    by (simp add: totals_def exn_bind_def bt ct tb tc p py_sub_num[OF tc(2) tb(2)])
  then show ?thesis using tb(2) tc(2) by blast
qed

lemma header_wf:
  assumes "r = JObj kvs" "to_num tb = Some nb" "to_num tc = Some nc"
  shows "\<exists>hdr. emit (header r (tb, tc, d, p)) = (hdr, None)"
  using assms by (simp add: header_def exn_bind_def dict_get_def fmt_num_num)

lemma collect_wf:
  "list_all (\<lambda>x. well_formed_chunk (snd x)) items \<Longrightarrow>
   \<exists>fl. collect items = Inr fl"
proof (induction items)
  case Nil
  then show ?case by simp
next
  case (Cons x items)
  obtain name chunk where x: "x = (name, chunk)" by (cases x)
  from Cons.prems obtain kvs where "chunk = JObj kvs"
    by (auto simp: x well_formed_chunk_def split: json.splits)
  then have "\<exists>st. dict_get chunk ''status'' JNull = Inr st" by (simp add: dict_get_def)
  moreover from Cons obtain fl where "collect items = Inr fl" by auto
  ultimately show ?case by (auto simp: x exn_bind_def)
qed

lemma abs_delta_wf: "well_formed_chunk (snd x) \<Longrightarrow> \<exists>k. abs_delta rnd x = Inr k"
proof -
  assume "well_formed_chunk (snd x)"
  then obtain kvs where c: "snd x = JObj kvs" and b: "numeric_or_absent kvs ''baselineBytes''"
    and cu: "numeric_or_absent kvs ''currentBytes''"
    by (auto simp: well_formed_chunk_def split: json.splits)
  from numeric_get[OF b] numeric_get[OF cu] show ?thesis
    by (auto simp: abs_delta_def exn_bind_def c py_sub_num)
qed

lemma keyed_wf: "(\<And>x. x \<in> set xs \<Longrightarrow> \<exists>k. key x = Inr k) \<Longrightarrow> \<exists>ks. keyed key xs = Inr ks"
proof (induction xs)
  case Nil
  then show ?case by simp
next
  case (Cons x xs)
  from Cons.prems[of x] obtain k where "key x = Inr k" by auto
  moreover from Cons obtain ks where "keyed key xs = Inr ks" by auto
  ultimately show ?case by (simp add: exn_bind_def)
qed

lemma render_wf:
  assumes "well_formed_chunk (snd x)" "shown_status (snd x)"
  shows "\<exists>l. render rnd x = Inr l"
proof -
  obtain name chunk where x: "x = (name, chunk)" by (cases x)
  from assms(1) obtain kvs where c: "chunk = JObj kvs" and b: "numeric_or_absent kvs ''baselineBytes''"
    and cu: "numeric_or_absent kvs ''currentBytes''" and dp: "numeric_or_absent kvs ''deltaPct''"
    by (auto simp: x well_formed_chunk_def split: json.splits)
  from assms(2) obtain st where st: "subscript chunk ''status'' = Inr st"
    by (auto simp: x c shown_status_def dict_get_def subscript_def split: option.splits)
  from numeric_get[OF b] obtain bv bn where bv: "dict_get chunk ''baselineBytes'' (JInt 0) = Inr bv"
    "to_num bv = Some bn" unfolding c by blast
  from numeric_get[OF cu] obtain cv cn where cv: "dict_get chunk ''currentBytes'' (JInt 0) = Inr cv"
    "to_num cv = Some cn" unfolding c by blast
  from numeric_get[OF dp] obtain pv pn where pv: "dict_get chunk ''deltaPct'' (JInt 0) = Inr pv"
    "to_num pv = Some pn" unfolding c by blast
  show ?thesis
    by (simp add: render_def x exn_bind_def st bv cv pv py_sub_num[OF cv(2) bv(2)] fmt_num_num)
qed

lemma emit_all_Inr: "(\<And>x. x \<in> set xs \<Longrightarrow> \<exists>l. f x = Inr l) \<Longrightarrow> \<exists>ls. emit (map f xs) = (ls, None)"
proof (induction xs)
  case Nil
  then show ?case by simp
next
  case (Cons x xs)
  from Cons.prems[of x] obtain l where "f x = Inr l" by auto
  moreover from Cons obtain ls where "emit (map f xs) = (ls, None)" by auto
  ultimately show ?case by simp
qed

lemma chunks_wf:
  assumes "well_formed_report r"
  shows "\<exists>items. dict_get r ''chunks'' (JObj []) = Inr (JObj items) \<and>
                 list_all (\<lambda>x. well_formed_chunk (snd x)) items"
proof -
  from assms obtain kvs where r: "r = JObj kvs"
    and c: "case map_of kvs ''chunks'' of
              None \<Rightarrow> True
            | Some (JObj items) \<Rightarrow> list_all (\<lambda>x. well_formed_chunk (snd x)) items
            | Some _ \<Rightarrow> False"
    by (auto simp: well_formed_report_def split: json.splits)
  show ?thesis
  proof (cases "map_of kvs ''chunks''")
    case None
    then show ?thesis by (simp add: r dict_get_def)
  next
    case (Some v)
    with c show ?thesis by (cases v) (simp_all add: r dict_get_def)
  qed
qed

lemma failing_chunks_wf:
  assumes "well_formed_report r"
  shows "\<exists>failing. failing_chunks rnd r = Inr failing \<and>
                   (\<forall>x\<in>set failing. well_formed_chunk (snd x) \<and> shown_status (snd x))"
proof -
  from chunks_wf[OF assms] obtain items where it: "dict_get r ''chunks'' (JObj []) = Inr (JObj items)"
    and wf: "list_all (\<lambda>x. well_formed_chunk (snd x)) items" by blast
  from collect_wf[OF wf] obtain fl where fl: "collect items = Inr fl" by blast
  then have fl_eq: "fl = filter (\<lambda>x. shown_status (snd x)) items" by (rule collect_Inr)
  then have good: "\<forall>x\<in>set fl. well_formed_chunk (snd x) \<and> shown_status (snd x)"
    using wf by (auto simp: list_all_iff)
  then have "\<exists>ks. keyed (abs_delta rnd) fl = Inr ks"
    by (intro keyed_wf abs_delta_wf) simp
  then obtain failing where so: "sort_reverse (abs_delta rnd) fl = Inr failing"
    by (auto simp: sort_reverse_def exn_bind_def)
  from sort_reverse_Inr(1)[OF so] have "set failing = set fl" by (rule mset_eq_setD)
  moreover have "failing_chunks rnd r = Inr failing"
    by (simp add: failing_chunks_def exn_bind_def it dict_items_def fl so)
  ultimately show ?thesis using good by simp
qed

lemma well_formed_report_no_exception:
  assumes "well_formed_report r"
  shows "\<exists>out. summarize rnd r = (out, None)"
proof -
  from assms obtain kvs where r: "r = JObj kvs" by (auto simp: well_formed_report_def split: json.splits)
  from totals_wf[OF assms] obtain tb tc d p nb nc where t: "totals rnd r = Inr (tb, tc, d, p)"
    and n: "to_num tb = Some nb" "to_num tc = Some nc" by blast
  from header_wf[OF r n] obtain hdr where hdr: "emit (header r (tb, tc, d, p)) = (hdr, None)" by blast
  from failing_chunks_wf[OF assms] obtain failing where f: "failing_chunks rnd r = Inr failing"
    and good: "\<forall>x\<in>set failing. well_formed_chunk (snd x) \<and> shown_status (snd x)" by blast
  have "\<exists>ls. emit (map (render rnd) (take 50 failing)) = (ls, None)"
  proof (rule emit_all_Inr)
    fix x assume "x \<in> set (take 50 failing)"
    then have "x \<in> set failing" by (rule in_set_takeD)
    with good show "\<exists>l. render rnd x = Inr l" by (auto intro: render_wf)
  qed
  then obtain ls where "emit (map (render rnd) (take 50 failing)) = (ls, None)" by blast
  then have "summarize rnd r = (hdr @ ls, None)" by (simp add: summarize_def t hdr f)
  then show ?thesis by blast
qed

lemma sample_report_well_formed: "well_formed_report sample_report"
  by code_simp

lemma analyze_report_exit_status: "snd (analyze_report rnd parse fs) = 0"
  by (simp add: analyze_report_def split: prod.splits option.splits sum.splits)

text \<open>Any baseline total that is a number and not positive gives the percentage 0.\<close>

lemma nonpositive_baseline_total:
  "to_num total_baseline = Some n \<Longrightarrow> num_val n \<le> 0 \<Longrightarrow>
   total_delta_pct rnd total_delta total_baseline = Inr (PInt 0)"
  by (simp add: total_delta_pct_def py_gt0_def exn_bind_def)

subsection \<open>Claims about the report summarizer\<close>

text \<open>
  C2, as stated, fails: with no report file the script prints its one line and then
  ends normally, so the exit status is 0, not a non-zero one.
\<close>

theorem unreadable_report_exit_status_zero:
  "load reject_all no_files = Inl FileNotFoundError \<and>
   analyze_report id reject_all no_files = ([ErrorLine FileNotFoundError], 0) \<and>
   \<not> snd (analyze_report id reject_all no_files) \<noteq> 0"
  by (simp add: load_def no_files_def analyze_report_def)

text \<open>
  C2, amended: whenever the report file is missing or its text is not JSON, the script
  catches the exception, prints exactly one line, the diagnostic of that exception, and
  the process exits with status 0.
\<close>

theorem unreadable_report_one_line:
  assumes "fs REPORT_PATH = None \<or> (\<exists>text. fs REPORT_PATH = Some text \<and> parse text = None)"
  shows "\<exists>e. load parse fs = Inl e \<and> analyze_report rnd parse fs = ([ErrorLine e], 0)"
  using assms by (auto simp: load_def analyze_report_def)

theorem unreadable_report_one_line_witness:
  "\<exists>e. load reject_all garbled_report = Inl e \<and>
       analyze_report id reject_all garbled_report = ([ErrorLine e], 0)"
proof -
  have h: "garbled_report REPORT_PATH = None \<or>
           (\<exists>text. garbled_report REPORT_PATH = Some text \<and> reject_all text = None)"
    by (simp add: garbled_report_def reject_all_def)
  show ?thesis
    by (rule unreadable_report_one_line
          [where fs = garbled_report and parse = reject_all and rnd = id, OF h])
qed

text \<open>
  C8: when the baseline \<open>totalBytes\<close> is 0, the overall percentage is the integer 0; and
  whatever the two totals are, neither line 14 nor the whole of lines 8 to 14 raises
  \<^verbatim>\<open>ZeroDivisionError\<close>: the guard makes the error branch of the division unreachable.
\<close>

theorem zero_baseline_total_gives_zero_pct:
  "total_delta_pct rnd total_delta (JInt 0) = Inr (PInt 0) \<and>
   total_delta_pct rnd total_delta total_baseline \<noteq> Inl ZeroDivisionError \<and>
   totals rnd report \<noteq> Inl ZeroDivisionError"
proof -
  have "total_delta_pct rnd total_delta (JInt 0) = Inr (PInt 0)"
    by (simp add: total_delta_pct_def py_gt0_def to_num_def num_val_def exn_bind_def)
  then show ?thesis using total_delta_pct_no_zerodiv totals_no_zerodiv by blast
qed




section \<open>The classifier example\<close>

text \<open>
  C1: with a warn threshold of 10% and a fail threshold of 25%, a chunk of 1000 baseline
  bytes and 1300 current bytes is classified \<open>fail\<close> with \<open>deltaPct\<close> 0.30.
\<close>

theorem classify_app_js_example:
  "classify_chunk \<lparr>warnPct = Some (10 / 100), failPct = Some (25 / 100),
                   warnBytes = None, failBytes = None\<rparr> 1000 1300
     = \<lparr>status = Fail, baselineBytes = 1000, currentBytes = 1300, deltaPct = 30 / 100\<rparr>"
  by (simp add: classify_chunk_def delta_pct_def breach_def)

end
